theory Spec2Isabelle
  imports
    Complex_Main
    "HOL-Library.Multiset"
    "HOL-Library.Char_ord"
    "HOL-Library.List_Lexorder"
    "HOL-Library.Product_Lexorder"
begin

section \<open>Character classes of the pattern\<close>

text \<open>
  The report is read with \<^verbatim>\<open>encoding="latin-1"\<close>, so every character of the text is one
  of the 256 Latin-1 code points: exactly the type \<^typ>\<open>char\<close>. The pattern is a \<^verbatim>\<open>str\<close>
  pattern, so \<^verbatim>\<open>\d\<close>, \<^verbatim>\<open>\s\<close> and \<^verbatim>\<open>\w\<close> (the latter through \<^verbatim>\<open>\b\<close>) are the Unicode
  classes; the three predicates below list their members among the Latin-1 code points.
\<close>

definition is_digit :: "char \<Rightarrow> bool" where
  "is_digit c \<longleftrightarrow> 48 \<le> (of_char c :: nat) \<and> (of_char c :: nat) \<le> 57"

definition is_space :: "char \<Rightarrow> bool" where
  "is_space c \<longleftrightarrow>
     (9 \<le> (of_char c :: nat) \<and> (of_char c :: nat) \<le> 13) \<or>
     (28 \<le> (of_char c :: nat) \<and> (of_char c :: nat) \<le> 32) \<or>
     (of_char c :: nat) = 133 \<or> (of_char c :: nat) = 160"

definition is_word :: "char \<Rightarrow> bool" where
  "is_word c \<longleftrightarrow>
     (48 \<le> (of_char c :: nat) \<and> (of_char c :: nat) \<le> 57) \<or>
     (65 \<le> (of_char c :: nat) \<and> (of_char c :: nat) \<le> 90) \<or>
     (of_char c :: nat) = 95 \<or>
     (97 \<le> (of_char c :: nat) \<and> (of_char c :: nat) \<le> 122) \<or>
     (of_char c :: nat) = 170 \<or> (of_char c :: nat) = 178 \<or> (of_char c :: nat) = 179 \<or>
     (of_char c :: nat) = 181 \<or> (of_char c :: nat) = 185 \<or> (of_char c :: nat) = 186 \<or>
     (188 \<le> (of_char c :: nat) \<and> (of_char c :: nat) \<le> 190) \<or>
     (192 \<le> (of_char c :: nat) \<and> (of_char c :: nat) \<le> 214) \<or>
     (216 \<le> (of_char c :: nat) \<and> (of_char c :: nat) \<le> 246) \<or>
     248 \<le> (of_char c :: nat)"

definition is_minus :: "char \<Rightarrow> bool" where
  "is_minus c \<longleftrightarrow> c = CHR ''-''"

section \<open>A backtracking matcher for the constructs of \<open>ROW_RE\<close>\<close>

text \<open>
  A position in the text is the character before it (\<open>None\<close> at the start of the text)
  and the text still to be read. A matcher state adds the groups captured so far.
\<close>

type_synonym pos = "char option \<times> string"
type_synonym mstate = "pos \<times> string list"

datatype re =
    Bol                      \<comment> \<open>\<^verbatim>\<open>^\<close> under \<^verbatim>\<open>re.MULTILINE\<close>\<close>
  | WordB                    \<comment> \<open>\<^verbatim>\<open>\b\<close>\<close>
  | Cls "char \<Rightarrow> bool"       \<comment> \<open>one character of a class\<close>
  | Star "char \<Rightarrow> bool"      \<comment> \<open>greedy \<^verbatim>\<open>*\<close> over a class\<close>
  | Rep nat "char \<Rightarrow> bool"   \<comment> \<open>\<^verbatim>\<open>{n}\<close> over a class\<close>
  | Opt re                   \<comment> \<open>greedy \<^verbatim>\<open>?\<close>\<close>
  | Seq re re
  | Group re                 \<comment> \<open>capturing group\<close>

text \<open>
  \<open>star p prev rest\<close> lists the positions a greedy repetition of class \<open>p\<close> can stop at,
  in the order the backtracking engine tries them: the longest run first, then one
  character less each time, down to the empty run.
\<close>

fun star :: "(char \<Rightarrow> bool) \<Rightarrow> char option \<Rightarrow> string \<Rightarrow> pos list" where
  "star p prev [] = [(prev, [])]"
| "star p prev (c # cs) =
     (if p c then star p (Some c) cs @ [(prev, c # cs)] else [(prev, c # cs)])"

text \<open>\<open>rep n p prev rest\<close>: exactly \<open>n\<close> characters of class \<open>p\<close>, or no match.\<close>

fun rep :: "nat \<Rightarrow> (char \<Rightarrow> bool) \<Rightarrow> char option \<Rightarrow> string \<Rightarrow> pos option" where
  "rep 0 p prev rest = Some (prev, rest)"
| "rep (Suc n) p prev [] = None"
| "rep (Suc n) p prev (c # cs) = (if p c then rep n p (Some c) cs else None)"

definition word_before :: "char option \<Rightarrow> bool" where
  "word_before prev = (case prev of None \<Rightarrow> False | Some c \<Rightarrow> is_word c)"

definition word_after :: "string \<Rightarrow> bool" where
  "word_after rest = (case rest of [] \<Rightarrow> False | c # _ \<Rightarrow> is_word c)"

text \<open>
  A group that started with \<open>rest\<close> still to be read and finishes in state \<open>st\<close> has
  captured the characters read in between.
\<close>

definition capture :: "string \<Rightarrow> mstate \<Rightarrow> mstate" where
  "capture rest st =
     (case st of ((prev', rest'), caps') \<Rightarrow>
        ((prev', rest'), caps' @ [take (length rest - length rest') rest]))"

text \<open>
  \<open>matches r st\<close> is the list of states in which \<open>r\<close> can finish when started in \<open>st\<close>,
  in the engine's order of preference; the engine takes the first one that lets the rest
  of the pattern succeed, which is what \<open>Seq\<close> computes.
\<close>

fun matches :: "re \<Rightarrow> mstate \<Rightarrow> mstate list" where
  "matches Bol ((prev, rest), caps) =
     (if prev = None \<or> prev = Some (CHR 0x0A) then [((prev, rest), caps)] else [])"
| "matches WordB ((prev, rest), caps) =
     (if word_before prev \<noteq> word_after rest then [((prev, rest), caps)] else [])"
| "matches (Cls p) ((prev, rest), caps) =
     (case rest of [] \<Rightarrow> [] | c # cs \<Rightarrow> if p c then [((Some c, cs), caps)] else [])"
| "matches (Star p) ((prev, rest), caps) = map (\<lambda>q. (q, caps)) (star p prev rest)"
| "matches (Rep n p) ((prev, rest), caps) =
     (case rep n p prev rest of None \<Rightarrow> [] | Some q \<Rightarrow> [(q, caps)])"
| "matches (Opt r) st = matches r st @ [st]"
| "matches (Seq a b) st = concat (map (matches b) (matches a st))"
| "matches (Group r) ((prev, rest), caps) = map (capture rest) (matches r ((prev, rest), caps))"

definition Plus :: "(char \<Rightarrow> bool) \<Rightarrow> re" where
  "Plus p = Seq (Cls p) (Star p)"

text \<open>
  The pattern of the source,
  \<^verbatim>\<open>^\s*(\d{7})\s+(\d+)\s+(\d+)\s+(-?\d+)\b\<close>, compiled with \<^verbatim>\<open>re.MULTILINE\<close>.
\<close>

definition NUM :: re where
  "NUM = Seq (Opt (Cls is_minus)) (Plus is_digit)"

definition ROW_RE :: re where
  "ROW_RE =
     Seq Bol (Seq (Star is_space)
       (Seq (Group (Rep 7 is_digit)) (Seq (Plus is_space)
         (Seq (Group (Plus is_digit)) (Seq (Plus is_space)
           (Seq (Group (Plus is_digit)) (Seq (Plus is_space)
             (Seq (Group NUM) WordB))))))))"

definition match_at :: "re \<Rightarrow> pos \<Rightarrow> (pos \<times> string list) option" where
  "match_at r q = (case matches r (q, []) of [] \<Rightarrow> None | st # _ \<Rightarrow> Some st)"

text \<open>
  \<^verbatim>\<open>findall\<close>: try every position from left to right; after a match the scan resumes
  where the match ended (one character further after an empty match).
\<close>

function scan :: "re \<Rightarrow> pos \<Rightarrow> string list list" where
  "scan r (prev, rest) =
     (case match_at r (prev, rest) of
        Some ((prev', rest'), caps) \<Rightarrow>
          (if length rest' < length rest then caps # scan r (prev', rest')
           else caps # (case rest of [] \<Rightarrow> [] | c # cs \<Rightarrow> scan r (Some c, cs)))
      | None \<Rightarrow> (case rest of [] \<Rightarrow> [] | c # cs \<Rightarrow> scan r (Some c, cs)))"
  by pat_completeness auto
termination
  by (relation "measure (\<lambda>(r, prev, rest). length rest)") auto

definition findall :: "re \<Rightarrow> string \<Rightarrow> string list list" where
  "findall r text = scan r (None, text)"

subsection \<open>The pattern never backtracks into a different match\<close>

text \<open>
  \<open>greedy\<close> is the matcher that never gives anything back: a repetition takes the whole
  run, an optional part is taken whenever it is there. For \<open>ROW_RE\<close> it finds the same
  match as the backtracking matcher (\<open>agree\<close>, proved below), because whatever follows a
  repetition in the pattern cannot start with a character of the repeated class
  (\<open>rejects\<close>).
\<close>

fun skip :: "(char \<Rightarrow> bool) \<Rightarrow> char option \<Rightarrow> string \<Rightarrow> pos" where
  "skip p prev [] = (prev, [])"
| "skip p prev (c # cs) = (if p c then skip p (Some c) cs else (prev, c # cs))"

definition the_list :: "'a option \<Rightarrow> 'a list" where
  "the_list x = (case x of None \<Rightarrow> [] | Some y \<Rightarrow> [y])"

fun greedy :: "re \<Rightarrow> mstate \<Rightarrow> mstate option" where
  "greedy Bol ((prev, rest), caps) =
     (if prev = None \<or> prev = Some (CHR 0x0A) then Some ((prev, rest), caps) else None)"
| "greedy WordB ((prev, rest), caps) =
     (if word_before prev \<noteq> word_after rest then Some ((prev, rest), caps) else None)"
| "greedy (Cls p) ((prev, rest), caps) =
     (case rest of [] \<Rightarrow> None | c # cs \<Rightarrow> if p c then Some ((Some c, cs), caps) else None)"
| "greedy (Star p) ((prev, rest), caps) = Some (skip p prev rest, caps)"
| "greedy (Rep n p) ((prev, rest), caps) = map_option (\<lambda>q. (q, caps)) (rep n p prev rest)"
| "greedy (Opt r) st = (case greedy r st of None \<Rightarrow> Some st | Some st' \<Rightarrow> Some st')"
| "greedy (Seq a b) st = Option.bind (greedy a st) (greedy b)"
| "greedy (Group r) ((prev, rest), caps) =
     map_option (capture rest) (greedy r ((prev, rest), caps))"

definition agree :: "re \<Rightarrow> bool" where
  "agree r \<longleftrightarrow> (\<forall>st. matches r st = the_list (greedy r st))"

definition rejects :: "(char \<Rightarrow> bool) \<Rightarrow> re \<Rightarrow> bool" where
  "rejects p r \<longleftrightarrow> (\<forall>prev c cs caps. p c \<longrightarrow> matches r ((prev, c # cs), caps) = [])"

subsection \<open>Lines\<close>

text \<open>
  The lines of a text are its pieces between line feeds, the only line break that \<^verbatim>\<open>^\<close>
  knows (and the only one left in a text read in text mode). A line matches when the
  pattern matches it taken alone, as \<^verbatim>\<open>ROW_RE.match(line)\<close> would.
\<close>

fun split_lines :: "string \<Rightarrow> string list" where
  "split_lines [] = [[]]"
| "split_lines (c # cs) =
     (if c = CHR 0x0A then [] # split_lines cs
      else (case split_lines cs of [] \<Rightarrow> [[c]] | l # ls \<Rightarrow> (c # l) # ls))"

definition line_matches :: "string \<Rightarrow> bool" where
  "line_matches l \<longleftrightarrow> match_at ROW_RE (None, l) \<noteq> None"

section \<open>The data frame built by \<open>parse_txt\<close>\<close>

text \<open>
  The exceptions: the \<^verbatim>\<open>ValueError\<close> of \<open>parse_txt\<close> (and of pandas), the
  \<^verbatim>\<open>InvalidOperation\<close> of \<^verbatim>\<open>decimal\<close>, and any other instance of \<^verbatim>\<open>Exception\<close> with
  its message (a file that cannot be read, a PDF that cannot be written).
\<close>

datatype exn = ValueError string | InvalidOperation | OtherException string

record row =
  numero_garanzia :: string
  suffisso :: string
  job :: int
  totale_job :: int

definition digit_val :: "char \<Rightarrow> nat" where
  "digit_val c = of_char c - 48"

definition nat_of_digits :: "string \<Rightarrow> nat" where
  "nat_of_digits s = foldl (\<lambda>a c. 10 * a + digit_val c) 0 s"

definition all_digits :: "string \<Rightarrow> bool" where
  "all_digits s \<longleftrightarrow> s \<noteq> [] \<and> list_all is_digit s"

text \<open>
  \<^verbatim>\<open>pd.to_numeric(col, errors="coerce").fillna(0).astype(int)\<close>, on one value: a decimal
  integer literal gives its value, anything else becomes \<^verbatim>\<open>NaN\<close> and then 0. (pandas reads
  further spellings of numbers, such as a decimal point or an exponent; no string captured
  by \<open>ROW_RE\<close> has one. Values are Python integers here; a column holds them as 64-bit
  integers, which every number of up to 18 digits fits.)
\<close>

definition to_int :: "string \<Rightarrow> int" where
  "to_int s =
     (case s of
        [] \<Rightarrow> 0
      | c # cs \<Rightarrow>
          if is_minus c then (if all_digits cs then - int (nat_of_digits cs) else 0)
          else (if all_digits s then int (nat_of_digits s) else 0))"

text \<open>
  \<^verbatim>\<open>pd.DataFrame(matches, columns=HEADER)\<close> followed by the four column conversions. Each
  match must supply the four columns of \<^verbatim>\<open>HEADER\<close>; pandas raises \<^verbatim>\<open>ValueError\<close> otherwise.
\<close>

definition frame_row :: "string list \<Rightarrow> row option" where
  "frame_row caps =
     (case caps of
        [g, s, j, t] \<Rightarrow>
          Some \<lparr>numero_garanzia = g, suffisso = s, job = to_int j, totale_job = to_int t\<rparr>
      | _ \<Rightarrow> None)"

definition data_frame :: "string list list \<Rightarrow> exn + row list" where
  "data_frame ms =
     (case those (map frame_row ms) of
        None \<Rightarrow> Inl (ValueError ''4 columns passed'')
      | Some df \<Rightarrow> Inr df)"

definition no_rows_msg :: string where
  "no_rows_msg = ''Nessuna riga valida trovata nel TXT (controlla il formato).''"

text \<open>
  Lines 37 to 44 of \<^verbatim>\<open>parse_txt\<close>: the frame before duplicates are dropped. \<open>text\<close> is
  the string that lines 35 and 36 have read from the file.
\<close>

definition extract_rows :: "string \<Rightarrow> exn + row list" where
  "extract_rows text =
     (let ms = findall ROW_RE text
      in if ms = [] then Inl (ValueError no_rows_msg) else data_frame ms)"

subsection \<open>\<^verbatim>\<open>drop_duplicates(subset=[...], keep="first")\<close>\<close>

definition key3 :: "row \<Rightarrow> string \<times> string \<times> int" where
  "key3 r = (numero_garanzia r, suffisso r, job r)"

text \<open>
  \<^verbatim>\<open>duplicated(keep="first")\<close> marks a row when its key has been seen in an earlier row;
  \<^verbatim>\<open>drop_duplicates\<close> keeps the unmarked rows, in their order.
\<close>

fun duplicated :: "'k list \<Rightarrow> 'k list \<Rightarrow> bool list" where
  "duplicated seen [] = []"
| "duplicated seen (k # ks) = (k \<in> set seen) # duplicated (k # seen) ks"

definition drop_duplicates :: "row list \<Rightarrow> row list" where
  "drop_duplicates df =
     map fst (filter (\<lambda>(r, dup). \<not> dup) (zip df (duplicated [] (map key3 df))))"

subsection \<open>\<^verbatim>\<open>sort_values(by=[...], key=lambda c: pd.to_numeric(c, errors="ignore"))\<close>\<close>

text \<open>
  A sort key is a number or a text. Within one column all keys are of the same kind, so
  the order between a number and a text (numbers first, here) is never consulted. Texts
  compare as Python strings do: by code point, a proper prefix first.
\<close>

datatype cell = Num int | Txt string

instantiation cell :: linorder
begin

fun less_eq_cell :: "cell \<Rightarrow> cell \<Rightarrow> bool" where
  "less_eq_cell (Num a) (Num b) \<longleftrightarrow> a \<le> b"
| "less_eq_cell (Num a) (Txt t) \<longleftrightarrow> True"
| "less_eq_cell (Txt s) (Num b) \<longleftrightarrow> False"
| "less_eq_cell (Txt s) (Txt t) \<longleftrightarrow> s \<le> t"

definition less_cell :: "cell \<Rightarrow> cell \<Rightarrow> bool" where
  "less_cell x y \<longleftrightarrow> x \<le> y \<and> \<not> y \<le> x"

instance
proof
  fix x y z :: cell
  show "(x < y) = (x \<le> y \<and> \<not> y \<le> x)" by (simp add: less_cell_def)
  show "x \<le> x" by (cases x) simp_all
  show "x \<le> y \<Longrightarrow> y \<le> z \<Longrightarrow> x \<le> z" by (cases x; cases y; cases z) simp_all
  show "x \<le> y \<Longrightarrow> y \<le> x \<Longrightarrow> x = y" by (cases x; cases y) simp_all
  show "x \<le> y \<or> y \<le> x" by (cases x; cases y) auto
qed

end

text \<open>
  \<^verbatim>\<open>pd.to_numeric(c, errors="ignore")\<close> works on a whole column: when every value parses,
  the column becomes numeric; when one does not, the column comes back unchanged, as text.
  (The strings that parse are taken to be the digit strings, the only ones the pattern
  yields; their numbers are Python integers here, which pandas holds in 64 bits.) The
  \<^verbatim>\<open>JOB\<close> column already holds integers and is returned as it is.
\<close>

definition to_numeric_ignore :: "string list \<Rightarrow> cell list" where
  "to_numeric_ignore col =
     (if list_all all_digits col then map (\<lambda>s. Num (int (nat_of_digits s))) col
      else map Txt col)"

definition sort_keys :: "row list \<Rightarrow> (cell \<times> cell \<times> cell) list" where
  "sort_keys df =
     zip (to_numeric_ignore (map numero_garanzia df))
       (zip (to_numeric_ignore (map suffisso df)) (map (\<lambda>r. Num (job r)) df))"

text \<open>
  With several \<^verbatim>\<open>by\<close> columns pandas sorts the rows by the tuples of their keys,
  lexicographically and stably (its \<^verbatim>\<open>lexsort_indexer\<close>); \<^verbatim>\<open>reset_index(drop=True)\<close>
  renumbers the rows, which a list does by itself.
\<close>

definition sort_values :: "row list \<Rightarrow> row list" where
  "sort_values df = map snd (sort_key fst (zip (sort_keys df) df))"

text \<open>Lines 45 to 47.\<close>

definition normalize :: "row list \<Rightarrow> row list" where
  "normalize df = sort_values (drop_duplicates df)"

definition parse_txt :: "string \<Rightarrow> exn + row list" where
  "parse_txt text = (case extract_rows text of Inl e \<Rightarrow> Inl e | Inr df \<Rightarrow> Inr (normalize df))"

subsection \<open>The key of a row, and the rows kept, in closed form\<close>

text \<open>
  The key that \<open>sort_keys\<close> gives a row: each text column is read as numbers when all its
  values are digit strings and is left as text otherwise.
\<close>

definition col_key :: "string list \<Rightarrow> string \<Rightarrow> cell" where
  "col_key col s = (if list_all all_digits col then Num (int (nat_of_digits s)) else Txt s)"

definition row_key :: "row list \<Rightarrow> row \<Rightarrow> cell \<times> cell \<times> cell" where
  "row_key df r =
     (col_key (map numero_garanzia df) (numero_garanzia r),
      col_key (map suffisso df) (suffisso r),
      Num (job r))"

text \<open>The rows that are not marked as duplicates, by recursion over the frame.\<close>

fun first_seen :: "('a \<Rightarrow> 'k) \<Rightarrow> 'k list \<Rightarrow> 'a list \<Rightarrow> 'a list" where
  "first_seen f seen [] = []"
| "first_seen f seen (x # xs) =
     (if f x \<in> set seen then first_seen f (f x # seen) xs
      else x # first_seen f (f x # seen) xs)"

section \<open>Decimal arithmetic of \<open>build_pdf\<close> and \<open>eur_fmt\<close>\<close>

text \<open>
  A finite \<^verbatim>\<open>decimal.Decimal\<close> is a sign, a coefficient and an exponent: its value is the
  coefficient times ten to the exponent, negated when the sign is set. (Python calls the
  fields \<^verbatim>\<open>_sign\<close>, \<^verbatim>\<open>_int\<close> and \<^verbatim>\<open>_exp\<close>.) The program builds its decimals from integers
  and literals only, so the special values (infinities, NaN) do not occur. The arithmetic
  context is Python's default one: 28 significant digits, rounding half-even.
\<close>

record decimal =
  d_sign :: bool
  d_int :: nat
  d_exp :: int

datatype rounding = ROUND_HALF_UP | ROUND_HALF_EVEN

definition prec :: nat where
  "prec = 28"

definition Decimal_of_int :: "int \<Rightarrow> decimal" where
  "Decimal_of_int n = \<lparr>d_sign = (n < 0), d_int = nat \<bar>n\<bar>, d_exp = 0\<rparr>"

text \<open>The literals \<^verbatim>\<open>Decimal("0.22")\<close> and \<^verbatim>\<open>Decimal("0.01")\<close>.\<close>

definition dec_0_22 :: decimal where
  "dec_0_22 = \<lparr>d_sign = False, d_int = 22, d_exp = - 2\<rparr>"

definition dec_0_01 :: decimal where
  "dec_0_01 = \<lparr>d_sign = False, d_int = 1, d_exp = - 2\<rparr>"

text \<open>\<open>round_digits mode c k\<close>: the coefficient \<open>c\<close> with its last \<open>k\<close> digits rounded away.\<close>

definition round_digits :: "rounding \<Rightarrow> nat \<Rightarrow> nat \<Rightarrow> nat" where
  "round_digits mode c k =
     (let q = c div 10 ^ k; r = c mod 10 ^ k
      in case mode of
           ROUND_HALF_UP \<Rightarrow> if 2 * r \<ge> 10 ^ k then q + 1 else q
         | ROUND_HALF_EVEN \<Rightarrow> if 2 * r > 10 ^ k \<or> (2 * r = 10 ^ k \<and> odd q) then q + 1 else q)"

definition rescale :: "rounding \<Rightarrow> decimal \<Rightarrow> int \<Rightarrow> decimal" where
  "rescale mode d e =
     (if e \<le> d_exp d then d\<lparr>d_int := d_int d * 10 ^ nat (d_exp d - e), d_exp := e\<rparr>
      else d\<lparr>d_int := round_digits mode (d_int d) (nat (e - d_exp d)), d_exp := e\<rparr>)"

fun ndigits :: "nat \<Rightarrow> nat" where
  "ndigits n = (if n < 10 then 1 else Suc (ndigits (n div 10)))"

text \<open>
  The context's rounding of a result: a coefficient of more than \<open>prec\<close> digits is
  rounded to \<open>prec\<close> digits, half-even.
\<close>

definition ctx_round :: "decimal \<Rightarrow> decimal" where
  "ctx_round d =
     (if d_int d < 10 ^ prec then d
      else let k = ndigits (d_int d) - prec; q = round_digits ROUND_HALF_EVEN (d_int d) k
           in if q < 10 ^ prec then d\<lparr>d_int := q, d_exp := d_exp d + int k\<rparr>
              else d\<lparr>d_int := q div 10, d_exp := d_exp d + int k + 1\<rparr>)"

definition dec_mul :: "decimal \<Rightarrow> decimal \<Rightarrow> decimal" where
  "dec_mul a b =
     ctx_round \<lparr>d_sign = (d_sign a \<noteq> d_sign b), d_int = d_int a * d_int b,
                d_exp = d_exp a + d_exp b\<rparr>"

definition signed_int :: "decimal \<Rightarrow> int" where
  "signed_int d = (if d_sign d then - int (d_int d) else int (d_int d))"

text \<open>
  Addition aligns the operands at the smaller exponent and adds the coefficients; a zero
  sum is negative only when both operands are. (Exact for operands whose exponents are
  less than \<open>prec\<close> apart, as they are in \<open>build_pdf\<close>: 0 and -2.)
\<close>

definition dec_add :: "decimal \<Rightarrow> decimal \<Rightarrow> decimal" where
  "dec_add a b =
     (let e = min (d_exp a) (d_exp b);
          s = signed_int a * 10 ^ nat (d_exp a - e) + signed_int b * 10 ^ nat (d_exp b - e)
      in ctx_round \<lparr>d_sign = (if s = 0 then d_sign a \<and> d_sign b else s < 0),
                     d_int = nat \<bar>s\<bar>, d_exp = e\<rparr>)"

text \<open>
  \<^verbatim>\<open>d.quantize(q, rounding=mode)\<close>: \<open>d\<close> at the exponent of \<open>q\<close>. Python raises
  \<^verbatim>\<open>InvalidOperation\<close> when the result needs more than \<open>prec\<close> digits.
\<close>

definition quantize :: "decimal \<Rightarrow> decimal \<Rightarrow> rounding \<Rightarrow> exn + decimal" where
  "quantize d q mode =
     (let r = rescale mode d (d_exp q)
      in if d_int r < 10 ^ prec then Inr r else Inl InvalidOperation)"

text \<open>
  \<^verbatim>\<open>df["TOTALE JOB"].astype(int).sum()\<close> adds 64-bit integers: a sum outside their range
  wraps around.
\<close>

definition wrap64 :: "int \<Rightarrow> int" where
  "wrap64 x = (x + 2 ^ 63) mod 2 ^ 64 - 2 ^ 63"

definition column_sum :: "row list \<Rightarrow> int" where
  "column_sum df = wrap64 (sum_list (map totale_job df))"

text \<open>Lines 57 to 59 of \<open>build_pdf\<close>: \<^verbatim>\<open>totale\<close>, \<^verbatim>\<open>iva\<close> and \<^verbatim>\<open>ivato\<close>.\<close>

definition totals_of :: "int \<Rightarrow> exn + decimal \<times> decimal \<times> decimal" where
  "totals_of tot =
     (let totale = Decimal_of_int tot
      in case quantize (dec_mul totale dec_0_22) dec_0_01 ROUND_HALF_UP of
           Inl e \<Rightarrow> Inl e
         | Inr iva \<Rightarrow>
             (case quantize (dec_add totale iva) dec_0_01 ROUND_HALF_UP of
                Inl e \<Rightarrow> Inl e
              | Inr ivato \<Rightarrow> Inr (totale, iva, ivato)))"

definition build_pdf_totals :: "row list \<Rightarrow> exn + decimal \<times> decimal \<times> decimal" where
  "build_pdf_totals df = totals_of (column_sum df)"

subsection \<open>Formatting\<close>

definition digit_char :: "nat \<Rightarrow> char" where
  "digit_char n = ''0123456789'' ! n"

function digits_of :: "nat \<Rightarrow> string" where
  "digits_of n =
     (if n < 10 then [digit_char n] else digits_of (n div 10) @ [digit_char (n mod 10)])"
  by pat_completeness auto
termination
  by (relation "measure id") auto

text \<open>\<open>group3 s\<close>: a comma before every group of three digits, counted from the right.\<close>

fun group3_rev :: "string \<Rightarrow> string" where
  "group3_rev (a # b # c # d # ds) = a # b # c # CHR '','' # group3_rev (d # ds)"
| "group3_rev ds = ds"

definition group3 :: "string \<Rightarrow> string" where
  "group3 s = rev (group3_rev (rev s))"

text \<open>
  \<^verbatim>\<open>f"{q:,.2f}"\<close> on a decimal: two digits after the point (rounding with the context's
  mode if \<open>q\<close> has more), the integer part grouped by commas, a minus sign when the sign
  is set.
\<close>

definition format_comma_2f :: "decimal \<Rightarrow> string" where
  "format_comma_2f d =
     (let r = rescale ROUND_HALF_EVEN d (- 2)
      in (if d_sign r then ''-'' else []) @ group3 (digits_of (d_int r div 100)) @ ''.'' @
         [digit_char (d_int r mod 100 div 10), digit_char (d_int r mod 10)])"

definition replace :: "char \<Rightarrow> char \<Rightarrow> string \<Rightarrow> string" where
  "replace old new s = map (\<lambda>c. if c = old then new else c) s"

text \<open>
  A Python string is a sequence of code points. The formatted number is ASCII; the suffix
  that \<open>eur_fmt\<close> appends is not: the literal in the source file is a space followed by
  the three code points U+00E2, U+201A, U+00AC.
\<close>

type_synonym ustr = "nat list"

definition ustr_of :: "string \<Rightarrow> ustr" where
  "ustr_of s = map of_char s"

definition eur_suffix :: ustr where
  "eur_suffix = [0x20, 0xE2, 0x201A, 0xAC]"

definition eur_fmt :: "decimal \<Rightarrow> exn + ustr" where
  "eur_fmt val =
     (case quantize val dec_0_01 ROUND_HALF_UP of
        Inl e \<Rightarrow> Inl e
      | Inr q \<Rightarrow>
          (let s = format_comma_2f q;
               s = replace CHR ''.'' CHR '','' (replace CHR '','' CHR ''X'' s);
               s = replace CHR ''X'' CHR ''.'' s
           in Inr (ustr_of s @ eur_suffix)))"

section \<open>The driver\<close>

text \<open>
  \<open>main\<close> runs \<open>process_file\<close> on every argument that is an existing file. What
  \<open>process_file\<close> does to the world (the lines it prints, the PDF it writes) is a state
  transformer on a world that has at least a standard output; its result is the path of
  the PDF, or the exception it raised. The failures of \<open>process_file\<close> are instances of
  \<^verbatim>\<open>Exception\<close>, which is what the \<^verbatim>\<open>except\<close> clause catches.
\<close>

record world =
  stdout :: "string list"

type_synonym 'w process = "string \<Rightarrow> 'w world_scheme \<Rightarrow> (exn + string) \<times> 'w world_scheme"

definition print :: "string \<Rightarrow> 'w world_scheme \<Rightarrow> 'w world_scheme" where
  "print line w = w\<lparr>stdout := stdout w @ [line]\<rparr>"

fun exn_str :: "exn \<Rightarrow> string" where
  "exn_str (ValueError msg) = msg"
| "exn_str InvalidOperation = ''[<class 'decimal.InvalidOperation'>]''"
| "exn_str (OtherException msg) = msg"

definition error_line :: "string \<Rightarrow> exn \<Rightarrow> string" where
  "error_line f e = ''ERRORE durante l'elaborazione di '' @ f @ '': '' @ exn_str e"

text \<open>
  The \<^verbatim>\<open>for\<close> loop of \<open>main\<close>. An exception leaves the loop, and \<open>main\<close>, at once: it is
  printed and raised again.
\<close>

fun main_loop ::
  "'w process \<Rightarrow> string list \<Rightarrow> string list \<Rightarrow> 'w world_scheme \<Rightarrow> (exn + string list) \<times> 'w world_scheme"
where
  "main_loop process_file [] created w = (Inr created, w)"
| "main_loop process_file (f # fs) created w =
     (case process_file f w of
        (Inr out_pdf, w') \<Rightarrow> main_loop process_file fs (created @ [out_pdf]) w'
      | (Inl e, w') \<Rightarrow> (Inl e, print (error_line f e) w'))"

definition usage_line :: string where
  "usage_line = ''Nessun file passato. Trascina il file .txt sull'exe oppure esegui: RiepilogoGaranzie.exe percorso'' @ [CHR 0x5C] @ ''file.txt''"

definition main ::
  "(string \<Rightarrow> bool) \<Rightarrow> 'w process \<Rightarrow> string list \<Rightarrow> 'w world_scheme \<Rightarrow> (exn + int) \<times> 'w world_scheme"
where
  "main isfile process_file argv w =
     (let files = filter isfile argv
      in if files = [] then (Inr 0, print usage_line w)
         else case main_loop process_file files [] w of
                (Inl e, w') \<Rightarrow> (Inl e, w')
              | (Inr created, w') \<Rightarrow>
                  (Inr 0, foldl (\<lambda>w c. print (''CREATO: '' @ c) w)
                            (print ''Elaborazione completata.'' w') created))"

text \<open>
  What \<open>iva\<close> and \<open>ivato\<close> turn out to be for a total of 64 bits: 22 and 122 hundredths
  per unit of the total.
\<close>

definition tax_of :: "int \<Rightarrow> decimal" where
  "tax_of tot = \<lparr>d_sign = (tot < 0), d_int = nat \<bar>tot\<bar> * 22, d_exp = - 2\<rparr>"

definition gross_of :: "int \<Rightarrow> decimal" where
  "gross_of tot = \<lparr>d_sign = (tot < 0), d_int = nat \<bar>tot\<bar> * 122, d_exp = - 2\<rparr>"

section \<open>Values of decimals\<close>

definition dec_value :: "decimal \<Rightarrow> real" where
  "dec_value d =
     (if d_sign d then - 1 else 1) * real (d_int d) *
     (if 0 \<le> d_exp d then 10 ^ nat (d_exp d) else 1 / 10 ^ nat (- d_exp d))"

text \<open>
  The rounding the specification asks for, written from its words: to two decimal places,
  a tie going away from zero.
\<close>

definition round_half_up_2 :: "real \<Rightarrow> real" where
  "round_half_up_2 x = sgn x * real_of_int \<lfloor>\<bar>x\<bar> * 100 + 1 / 2\<rfloor> / 100"

section \<open>Notions used in the proofs\<close>

text \<open>
  The character before the position reached after reading \<open>xs\<close> from a position whose
  previous character is \<open>prev\<close>.
\<close>

definition prev_after :: "char option \<Rightarrow> string \<Rightarrow> char option" where
  "prev_after prev xs = (if xs = [] then prev else Some (last xs))"

text \<open>What the four groups of a match are: digit strings, the last one with an optional sign.\<close>

definition signed_digits :: "string \<Rightarrow> bool" where
  "signed_digits s \<longleftrightarrow> all_digits s \<or> (\<exists>ds. s = CHR ''-'' # ds \<and> all_digits ds)"

definition caps_ok :: "string list \<Rightarrow> bool" where
  "caps_ok caps \<longleftrightarrow>
     (\<exists>g1 g2 g3 g4. caps = [g1, g2, g3, g4] \<and> length g1 = 7 \<and> list_all is_digit g1 \<and>
        all_digits g2 \<and> all_digits g3 \<and> signed_digits g4)"

text \<open>What a row built from such groups is.\<close>

definition row_ok :: "row \<Rightarrow> bool" where
  "row_ok r \<longleftrightarrow>
     length (numero_garanzia r) = 7 \<and> list_all is_digit (numero_garanzia r) \<and>
     suffisso r \<noteq> [] \<and> list_all is_digit (suffisso r) \<and> 0 \<le> job r"

text \<open>
  A match of \<open>r\<close> stays the same match when the text goes on with \<open>post\<close> (\<open>extends\<close>).
  This holds for \<open>ROW_RE\<close> when \<open>post\<close> does not start with a word character
  (\<open>good_post\<close>), since every part of the pattern that follows a repetition needs at least
  one more character (\<open>needs_char\<close>).
\<close>

definition good_post :: "string \<Rightarrow> bool" where
  "good_post post \<longleftrightarrow> (case post of [] \<Rightarrow> True | c # _ \<Rightarrow> \<not> is_word c)"

definition extends :: "string \<Rightarrow> re \<Rightarrow> bool" where
  "extends post r \<longleftrightarrow>
     (\<forall>prev rest caps p' r' c'.
        greedy r ((prev, rest), caps) = Some ((p', r'), c') \<longrightarrow>
        greedy r ((prev, rest @ post), caps) = Some ((p', r' @ post), c'))"

definition needs_char :: "re \<Rightarrow> bool" where
  "needs_char r \<longleftrightarrow> (\<forall>prev caps. greedy r ((prev, []), caps) = None)"

section \<open>Inputs of the examples\<close>

text \<open>The three lines of the end-to-end scenario, the frame extracted from them, and the rows left.\<close>

definition scenario_text :: string where
  "scenario_text =
     ''0000123 001 1 100'' @ [CHR 0x0A] @ ''0000123 001 1 999'' @ [CHR 0x0A] @ ''0000123 002 1 50''"


definition scenario_rows :: "row list" where
  "scenario_rows =
     [\<lparr>numero_garanzia = ''0000123'', suffisso = ''001'', job = 1, totale_job = 100\<rparr>,
      \<lparr>numero_garanzia = ''0000123'', suffisso = ''002'', job = 1, totale_job = 50\<rparr>]"


text \<open>Two rows with one key and different totals.\<close>

definition first_rows :: "row list" where
  "first_rows =
     [\<lparr>numero_garanzia = ''0000123'', suffisso = ''001'', job = 1, totale_job = 100\<rparr>,
      \<lparr>numero_garanzia = ''0000123'', suffisso = ''001'', job = 1, totale_job = 999\<rparr>]"


text \<open>A report with a heading, one record and a footer.\<close>

definition report_text :: string where
  "report_text = ''GARANZIE'' @ [CHR 0x0A] @ ''0000123 001 1 100'' @ [CHR 0x0A] @ ''fine''"

text \<open>A \<open>process_file\<close> that fails on \<^verbatim>\<open>b.txt\<close> with the error of \<open>parse_txt\<close>.\<close>

definition demo_process :: "unit process" where
  "demo_process f w =
     (if f = ''b.txt'' then Inl (ValueError no_rows_msg) else Inr (f @ ''.pdf''),
      print (''Elaborazione: '' @ f) w)"

section \<open>Evaluation\<close>

lemmas dec_defs =
  totals_of_def Decimal_of_int_def dec_mul_def ctx_round_def prec_def quantize_def rescale_def
  dec_add_def dec_0_22_def dec_0_01_def signed_int_def round_digits_def

lemma scenario_findall:
  "findall ROW_RE scenario_text =
     [[''0000123'', ''001'', ''1'', ''100''], [''0000123'', ''001'', ''1'', ''999''],
      [''0000123'', ''002'', ''1'', ''50'']]"
  unfolding scenario_text_def by code_simp

lemma scenario_parse: "parse_txt scenario_text = Inr scenario_rows"
  unfolding scenario_text_def scenario_rows_def by code_simp

lemma scenario_sum: "column_sum scenario_rows = 150"
  by (simp add: column_sum_def scenario_rows_def wrap64_def)

lemma totals_150:
  "totals_of 150 =
     Inr (\<lparr>d_sign = False, d_int = 150, d_exp = 0\<rparr>,
          \<lparr>d_sign = False, d_int = 3300, d_exp = - 2\<rparr>,
          \<lparr>d_sign = False, d_int = 18300, d_exp = - 2\<rparr>)"
  by (simp add: dec_defs)

section \<open>The end-to-end scenario\<close>

text \<open>
  C1, as the code has it. On the text of the three lines
  \<^verbatim>\<open>0000123 001 1 100\<close>, \<^verbatim>\<open>0000123 001 1 999\<close>, \<^verbatim>\<open>0000123 002 1 50\<close> the pattern finds three
  matches, one per line; the second has the key of the first. \<open>parse_txt\<close> returns two
  rows, the one with 100 and the one with 50, in the order of their suffix, and the totals
  are 150, 33.00 and 183.00.
\<close>

theorem scenario_three_matches_two_rows:
  "findall ROW_RE scenario_text =
     [[''0000123'', ''001'', ''1'', ''100''], [''0000123'', ''001'', ''1'', ''999''],
      [''0000123'', ''002'', ''1'', ''50'']] \<and>
   length (findall ROW_RE scenario_text) = 3 \<and>
   parse_txt scenario_text =
     Inr [\<lparr>numero_garanzia = ''0000123'', suffisso = ''001'', job = 1, totale_job = 100\<rparr>,
          \<lparr>numero_garanzia = ''0000123'', suffisso = ''002'', job = 1, totale_job = 50\<rparr>] \<and>
   build_pdf_totals
       [\<lparr>numero_garanzia = ''0000123'', suffisso = ''001'', job = 1, totale_job = 100\<rparr>,
        \<lparr>numero_garanzia = ''0000123'', suffisso = ''002'', job = 1, totale_job = 50\<rparr>] =
     Inr (\<lparr>d_sign = False, d_int = 150, d_exp = 0\<rparr>,
          \<lparr>d_sign = False, d_int = 3300, d_exp = - 2\<rparr>,
          \<lparr>d_sign = False, d_int = 18300, d_exp = - 2\<rparr>)"
  using scenario_findall scenario_parse scenario_sum totals_150
  by (simp add: build_pdf_totals_def scenario_rows_def)

text \<open>
  C1, as the specification words it, says that the pattern finds two matches before
  duplicates are dropped. It finds three.
\<close>

theorem scenario_not_two_matches:
  "length (findall ROW_RE
     (''0000123 001 1 100'' @ [CHR 0x0A] @ ''0000123 001 1 999'' @ [CHR 0x0A] @ ''0000123 002 1 50''))
   \<noteq> 2"
  using scenario_findall by (simp add: scenario_text_def)

section \<open>The totals\<close>

lemma wrap64_range: "- (2 ^ 63) \<le> wrap64 x \<and> wrap64 x < 2 ^ 63"
proof -
  have "0 \<le> (x + 9223372036854775808) mod (18446744073709551616 :: int)"
    "(x + 9223372036854775808) mod (18446744073709551616 :: int) < 18446744073709551616"
    by simp_all
  then show ?thesis by (simp add: wrap64_def)
qed

lemma wrap64_id: "- (2 ^ 63) \<le> x \<Longrightarrow> x < 2 ^ 63 \<Longrightarrow> wrap64 x = x"
  by (simp add: wrap64_def mod_pos_pos_trivial)

lemma column_sum_range: "- (2 ^ 63) \<le> column_sum df \<and> column_sum df < 2 ^ 63"
  unfolding column_sum_def by (rule wrap64_range)

lemma small_coefficient:
  assumes "- (2 ^ 63) \<le> tot" "tot < 2 ^ 63"
  shows "nat \<bar>tot\<bar> * 122 < 10 ^ 28" "nat \<bar>tot\<bar> * 22 < 10 ^ 28"
proof -
  have "nat \<bar>tot\<bar> \<le> 9223372036854775808" using assms by simp
  then show "nat \<bar>tot\<bar> * 122 < 10 ^ 28" "nat \<bar>tot\<bar> * 22 < 10 ^ 28" by simp_all
qed

lemma mul_in_range:
  assumes "- (2 ^ 63) \<le> tot" "tot < 2 ^ 63"
  shows "dec_mul (Decimal_of_int tot) dec_0_22 = tax_of tot"
  using small_coefficient(2)[OF assms]
  by (simp add: dec_mul_def ctx_round_def Decimal_of_int_def dec_0_22_def tax_of_def prec_def)

lemma quantize_tax:
  assumes "- (2 ^ 63) \<le> tot" "tot < 2 ^ 63"
  shows "quantize (tax_of tot) dec_0_01 mode = Inr (tax_of tot)"
  using small_coefficient(2)[OF assms]
  by (simp add: quantize_def rescale_def dec_0_01_def tax_of_def prec_def)

lemma signed_int_Decimal: "signed_int (Decimal_of_int tot) = tot"
  by (simp add: signed_int_def Decimal_of_int_def)

lemma signed_int_tax: "signed_int (tax_of tot) = tot * 22"
  by (simp add: signed_int_def tax_of_def)

lemma ctx_round_small: "d_int d < 10 ^ 28 \<Longrightarrow> ctx_round d = d"
  by (simp add: ctx_round_def prec_def)

lemma add_in_range:
  assumes "- (2 ^ 63) \<le> tot" "tot < 2 ^ 63"
  shows "dec_add (Decimal_of_int tot) (tax_of tot) = gross_of tot"
proof -
  have e: "min (d_exp (Decimal_of_int tot)) (d_exp (tax_of tot)) = - 2"
    by (simp add: Decimal_of_int_def tax_of_def)
  have x: "d_exp (Decimal_of_int tot) = 0" "d_exp (tax_of tot) = - 2"
    "d_sign (Decimal_of_int tot) = (tot < 0)" "d_sign (tax_of tot) = (tot < 0)"
    by (simp_all add: Decimal_of_int_def tax_of_def)
  have n: "nat \<bar>tot * 100 + tot * 22\<bar> = nat \<bar>tot\<bar> * 122"
  proof -
    have "tot * 100 + tot * 22 = tot * 122" by simp
    then show ?thesis by (simp add: abs_mult nat_mult_distrib)
  qed
  have sg: "(if tot * 100 + tot * 22 = 0 then tot < 0 \<and> tot < 0 else tot * 100 + tot * 22 < 0) = (tot < 0)"
    by auto
  have "dec_add (Decimal_of_int tot) (tax_of tot) =
        ctx_round \<lparr>d_sign = (tot < 0), d_int = nat \<bar>tot\<bar> * 122, d_exp = - 2\<rparr>"
    unfolding dec_add_def Let_def e x signed_int_Decimal signed_int_tax
    using n sg by simp
  also have "\<dots> = gross_of tot"
    using small_coefficient(1)[OF assms] by (simp add: gross_of_def ctx_round_small)
  finally show ?thesis .
qed

lemma quantize_gross:
  assumes "- (2 ^ 63) \<le> tot" "tot < 2 ^ 63"
  shows "quantize (gross_of tot) dec_0_01 mode = Inr (gross_of tot)"
  using small_coefficient(1)[OF assms]
  by (simp add: quantize_def rescale_def dec_0_01_def gross_of_def prec_def)

lemma totals_of_in_range:
  assumes "- (2 ^ 63) \<le> tot" "tot < 2 ^ 63"
  shows "totals_of tot = Inr (Decimal_of_int tot, tax_of tot, gross_of tot)"
  by (simp add: totals_of_def mul_in_range[OF assms] quantize_tax[OF assms]
      add_in_range[OF assms] quantize_gross[OF assms])

lemma value_tax: "dec_value (tax_of tot) = real_of_int tot * 22 / 100"
  by (simp add: dec_value_def tax_of_def)

lemma value_gross: "dec_value (gross_of tot) = real_of_int tot * 122 / 100"
  by (simp add: dec_value_def gross_of_def)

lemma floor_half: "\<lfloor>real_of_int k + 1 / 2\<rfloor> = k"
  by linarith

lemma round_half_up_2_cents: "round_half_up_2 (real_of_int k / 100) = real_of_int k / 100"
proof -
  have "\<bar>real_of_int k / 100\<bar> * 100 + 1 / 2 = real_of_int \<bar>k\<bar> + 1 / 2" by simp
  then have "\<lfloor>\<bar>real_of_int k / 100\<bar> * 100 + 1 / 2\<rfloor> = \<bar>k\<bar>" using floor_half[of "\<bar>k\<bar>"] by simp
  moreover have "sgn (real_of_int k / 100) = real_of_int (sgn k)" by (simp add: sgn_if)
  ultimately show ?thesis unfolding round_half_up_2_def by (simp add: sgn_if)
qed

lemma build_pdf_totals_closed:
  "build_pdf_totals df =
     Inr (Decimal_of_int (column_sum df), tax_of (column_sum df), gross_of (column_sum df))"
  using column_sum_range[of df] by (simp add: build_pdf_totals_def totals_of_in_range)

lemma round_tax: "round_half_up_2 (real_of_int tot * 22 / 100) = real_of_int tot * 22 / 100"
  using round_half_up_2_cents[of "tot * 22"] by simp

lemma round_gross:
  "round_half_up_2 (real_of_int tot + real_of_int tot * 22 / 100) = real_of_int tot * 122 / 100"
proof -
  have "real_of_int tot + real_of_int tot * 22 / 100 = real_of_int (tot * 122) / 100" by simp
  then show ?thesis using round_half_up_2_cents[of "tot * 122"] by simp
qed

text \<open>
  C4. For every frame, with \<open>column_sum df\<close> the total that the code computes (the sum of
  the \<^verbatim>\<open>TOTALE JOB\<close> column whenever that sum fits 64 bits): \<open>build_pdf\<close> raises nothing,
  \<open>iva\<close> is the total times 0.22 rounded half away from zero to two decimal places,
  \<open>ivato\<close> is the total plus \<open>iva\<close> rounded the same way, and both are decimals with
  exactly two decimal places, computed in decimal arithmetic. A total of 100 gives 22.00
  and 122.00; a total of -50 gives -11.00 and -61.00.
\<close>

theorem totals_rounded_half_up:
  "(\<exists>iva ivato.
      build_pdf_totals df = Inr (Decimal_of_int (column_sum df), iva, ivato) \<and>
      d_exp iva = - 2 \<and>
      dec_value iva = round_half_up_2 (real_of_int (column_sum df) * 22 / 100) \<and>
      d_exp ivato = - 2 \<and>
      dec_value ivato = round_half_up_2 (real_of_int (column_sum df) + dec_value iva)) \<and>
   (- (2 ^ 63) \<le> sum_list (map totale_job df) \<and> sum_list (map totale_job df) < 2 ^ 63 \<longrightarrow>
      column_sum df = sum_list (map totale_job df)) \<and>
   totals_of 100 =
     Inr (\<lparr>d_sign = False, d_int = 100, d_exp = 0\<rparr>,
          \<lparr>d_sign = False, d_int = 2200, d_exp = - 2\<rparr>,
          \<lparr>d_sign = False, d_int = 12200, d_exp = - 2\<rparr>) \<and>
   totals_of (- 50) =
     Inr (\<lparr>d_sign = True, d_int = 50, d_exp = 0\<rparr>,
          \<lparr>d_sign = True, d_int = 1100, d_exp = - 2\<rparr>,
          \<lparr>d_sign = True, d_int = 6100, d_exp = - 2\<rparr>)"
proof (intro conjI impI)
  show "\<exists>iva ivato.
      build_pdf_totals df = Inr (Decimal_of_int (column_sum df), iva, ivato) \<and>
      d_exp iva = - 2 \<and>
      dec_value iva = round_half_up_2 (real_of_int (column_sum df) * 22 / 100) \<and>
      d_exp ivato = - 2 \<and>
      dec_value ivato = round_half_up_2 (real_of_int (column_sum df) + dec_value iva)"
  proof (intro exI conjI)
    show "build_pdf_totals df =
      Inr (Decimal_of_int (column_sum df), tax_of (column_sum df), gross_of (column_sum df))"
      by (rule build_pdf_totals_closed)
    show "d_exp (tax_of (column_sum df)) = - 2" by (simp add: tax_of_def)
    show "d_exp (gross_of (column_sum df)) = - 2" by (simp add: gross_of_def)
    show "dec_value (tax_of (column_sum df)) =
      round_half_up_2 (real_of_int (column_sum df) * 22 / 100)"
      by (simp only: value_tax round_tax)
    show "dec_value (gross_of (column_sum df)) =
      round_half_up_2 (real_of_int (column_sum df) + dec_value (tax_of (column_sum df)))"
      by (simp only: value_tax value_gross round_gross)
  qed
next
  assume "- (2 ^ 63) \<le> sum_list (map totale_job df) \<and> sum_list (map totale_job df) < 2 ^ 63"
  then show "column_sum df = sum_list (map totale_job df)"
    unfolding column_sum_def by (intro wrap64_id) simp_all
next
  show "totals_of 100 =
     Inr (\<lparr>d_sign = False, d_int = 100, d_exp = 0\<rparr>,
          \<lparr>d_sign = False, d_int = 2200, d_exp = - 2\<rparr>,
          \<lparr>d_sign = False, d_int = 12200, d_exp = - 2\<rparr>)"
    by (simp add: dec_defs)
next
  show "totals_of (- 50) =
     Inr (\<lparr>d_sign = True, d_int = 50, d_exp = 0\<rparr>,
          \<lparr>d_sign = True, d_int = 1100, d_exp = - 2\<rparr>,
          \<lparr>d_sign = True, d_int = 6100, d_exp = - 2\<rparr>)"
    by (simp add: dec_defs)
qed

text \<open>An instance of C4: the two rows of the scenario, with total 150.\<close>

theorem totals_rounded_half_up_witness:
  "- (2 ^ 63) \<le> sum_list (map totale_job scenario_rows) \<and>
   sum_list (map totale_job scenario_rows) < 2 ^ 63 \<and>
   column_sum scenario_rows = 150 \<and>
   (\<exists>iva ivato.
      build_pdf_totals scenario_rows = Inr (Decimal_of_int 150, iva, ivato) \<and>
      dec_value iva = 33 \<and> dec_value ivato = 183)"
proof -
  have s: "sum_list (map totale_job scenario_rows) = 150"
    by (simp add: scenario_rows_def)
  have r: "round_half_up_2 33 = 33" "round_half_up_2 183 = 183"
    using round_half_up_2_cents[of 3300] round_half_up_2_cents[of 18300] by simp_all
  from totals_rounded_half_up[of scenario_rows] s have c: "column_sum scenario_rows = 150"
    by simp
  with totals_rounded_half_up[of scenario_rows] obtain iva ivato where
    "build_pdf_totals scenario_rows = Inr (Decimal_of_int 150, iva, ivato)"
    "dec_value iva = round_half_up_2 (real_of_int 150 * 22 / 100)"
    "dec_value ivato = round_half_up_2 (real_of_int 150 + dec_value iva)"
    by auto
  then have "build_pdf_totals scenario_rows = Inr (Decimal_of_int 150, iva, ivato) \<and>
      dec_value iva = 33 \<and> dec_value ivato = 183"
    using r by simp
  then show ?thesis using s c by auto
qed

text \<open>
  C9. The total is an integer, so the product with 0.22 already has two decimal places
  and the sum with \<open>iva\<close> has two as well: neither \<open>quantize\<close> changes its operand,
  \<open>iva\<close> is exactly 22 hundredths of the total and \<open>ivato\<close> exactly the total plus
  \<open>iva\<close>. Nothing is rounded, and rounding half-even would return the same decimals.
\<close>

theorem quantize_changes_nothing:
  "\<exists>iva ivato.
      build_pdf_totals df = Inr (Decimal_of_int (column_sum df), iva, ivato) \<and>
      iva = dec_mul (Decimal_of_int (column_sum df)) dec_0_22 \<and>
      ivato = dec_add (Decimal_of_int (column_sum df)) iva \<and>
      d_exp iva = - 2 \<and> d_exp ivato = - 2 \<and>
      dec_value iva = real_of_int (column_sum df) * 22 / 100 \<and>
      dec_value ivato = real_of_int (column_sum df) + dec_value iva \<and>
      quantize (dec_mul (Decimal_of_int (column_sum df)) dec_0_22) dec_0_01 ROUND_HALF_EVEN = Inr iva \<and>
      quantize (dec_add (Decimal_of_int (column_sum df)) iva) dec_0_01 ROUND_HALF_EVEN = Inr ivato"
proof (intro exI conjI)
  note r = column_sum_range[of df]
  have lo: "- (2 ^ 63) \<le> column_sum df" and hi: "column_sum df < 2 ^ 63"
    using r by simp_all
  show "build_pdf_totals df =
      Inr (Decimal_of_int (column_sum df), tax_of (column_sum df), gross_of (column_sum df))"
    by (rule build_pdf_totals_closed)
  show "tax_of (column_sum df) = dec_mul (Decimal_of_int (column_sum df)) dec_0_22"
    by (simp only: mul_in_range[OF lo hi])
  show "gross_of (column_sum df) = dec_add (Decimal_of_int (column_sum df)) (tax_of (column_sum df))"
    by (simp only: add_in_range[OF lo hi])
  show "d_exp (tax_of (column_sum df)) = - 2" by (simp add: tax_of_def)
  show "d_exp (gross_of (column_sum df)) = - 2" by (simp add: gross_of_def)
  show "dec_value (tax_of (column_sum df)) = real_of_int (column_sum df) * 22 / 100"
    by (rule value_tax)
  show "dec_value (gross_of (column_sum df)) =
      real_of_int (column_sum df) + dec_value (tax_of (column_sum df))"
    by (simp add: value_tax value_gross)
  show "quantize (dec_mul (Decimal_of_int (column_sum df)) dec_0_22) dec_0_01 ROUND_HALF_EVEN =
      Inr (tax_of (column_sum df))"
    by (simp only: mul_in_range[OF lo hi] quantize_tax[OF lo hi])
  show "quantize (dec_add (Decimal_of_int (column_sum df)) (tax_of (column_sum df))) dec_0_01
      ROUND_HALF_EVEN = Inr (gross_of (column_sum df))"
    by (simp only: add_in_range[OF lo hi] quantize_gross[OF lo hi])
qed

section \<open>The currency format\<close>

lemma digits_of_small: "n < 10 \<Longrightarrow> digits_of n = [digit_char n]"
  by (simp add: digits_of.simps[of n])

lemma digits_of_large: "10 \<le> n \<Longrightarrow> digits_of n = digits_of (n div 10) @ [digit_char (n mod 10)]"
  by (subst digits_of.simps) simp

lemmas fmt_defs =
  eur_fmt_def format_comma_2f_def digits_of_small digits_of_large group3_def replace_def
  ustr_of_def eur_suffix_def digit_char_def

text \<open>
  C5. \<open>eur_fmt\<close> groups the thousands with a full stop, puts a comma before the two
  decimal digits and appends a space and the currency suffix of the source. The suffix in
  the source file is not the euro sign U+20AC but the three code points U+00E2, U+201A,
  U+00AC: 1000, 0 and -61 come out as the expected digits followed by those.
\<close>

theorem eur_fmt_examples:
  "eur_fmt (Decimal_of_int 1000) = Inr (ustr_of ''1.000,00 '' @ [0xE2, 0x201A, 0xAC]) \<and>
   eur_fmt (Decimal_of_int 0) = Inr (ustr_of ''0,00 '' @ [0xE2, 0x201A, 0xAC]) \<and>
   eur_fmt (Decimal_of_int (- 61)) = Inr (ustr_of ''-61,00 '' @ [0xE2, 0x201A, 0xAC]) \<and>
   eur_fmt (Decimal_of_int 1000) \<noteq> Inr (ustr_of ''1.000,00 '' @ [0x20AC])"
  by (simp add: fmt_defs dec_defs)

section \<open>The driver stops at the first failure\<close>

lemma main_loop_append:
  "main_loop process_file (pre @ fs) created w =
     (case main_loop process_file pre created w of
        (Inr created', w') \<Rightarrow> main_loop process_file fs created' w'
      | (Inl e, w') \<Rightarrow> (Inl e, w'))"
  by (induction pre arbitrary: created w) (auto split: prod.splits sum.splits)

text \<open>
  C8. Let \<open>f\<close> be an input file such that every file before it was processed and
  \<open>process_file\<close> fails on \<open>f\<close> with \<open>e\<close>. Then \<open>main\<close> prints the line
  \<^verbatim>\<open>ERRORE durante l'elaborazione di f: e\<close> and raises \<open>e\<close>; the world it leaves is the one
  \<open>process_file\<close> left on \<open>f\<close> plus that line, whatever files come after \<open>f\<close>: none
  of them is processed, and the closing lines are not printed.
\<close>

theorem main_fail_fast:
  assumes "filter isfile argv = pre @ f # post"
    and "main_loop process_file pre [] w = (Inr created, w1)"
    and "process_file f w1 = (Inl e, w2)"
  shows "main isfile process_file argv w =
           (Inl e, w2\<lparr>stdout := stdout w2 @
              [''ERRORE durante l'elaborazione di '' @ f @ '': '' @ exn_str e]\<rparr>)"
  using assms by (simp add: main_def main_loop_append print_def error_line_def)

text \<open>An instance of C8: three files, of which the second has no valid row.\<close>

theorem main_fail_fast_witness:
  "filter (\<lambda>p. True) [''a.txt'', ''b.txt'', ''c.txt''] = [''a.txt''] @ ''b.txt'' # [''c.txt''] \<and>
   main_loop demo_process [''a.txt''] [] \<lparr>stdout = []\<rparr> =
     (Inr [''a.txt.pdf''], \<lparr>stdout = [''Elaborazione: a.txt'']\<rparr>) \<and>
   demo_process ''b.txt'' \<lparr>stdout = [''Elaborazione: a.txt'']\<rparr> =
     (Inl (ValueError no_rows_msg), \<lparr>stdout = [''Elaborazione: a.txt'', ''Elaborazione: b.txt'']\<rparr>) \<and>
   main (\<lambda>p. True) demo_process [''a.txt'', ''b.txt'', ''c.txt''] \<lparr>stdout = []\<rparr> =
     (Inl (ValueError no_rows_msg),
      \<lparr>stdout = [''Elaborazione: a.txt'', ''Elaborazione: b.txt'',
         ''ERRORE durante l'elaborazione di b.txt: Nessuna riga valida trovata nel TXT (controlla il formato).'']\<rparr>)"
proof -
  have a: "filter (\<lambda>p. True) [''a.txt'', ''b.txt'', ''c.txt''] = [''a.txt''] @ ''b.txt'' # [''c.txt'']"
    by simp
  have b: "main_loop demo_process [''a.txt''] [] \<lparr>stdout = []\<rparr> =
     (Inr [''a.txt.pdf''], \<lparr>stdout = [''Elaborazione: a.txt'']\<rparr>)"
    by (simp add: demo_process_def print_def)
  have c: "demo_process ''b.txt'' \<lparr>stdout = [''Elaborazione: a.txt'']\<rparr> =
     (Inl (ValueError no_rows_msg), \<lparr>stdout = [''Elaborazione: a.txt'', ''Elaborazione: b.txt'']\<rparr>)"
    by (simp add: demo_process_def print_def)
  show ?thesis
    using a b c main_fail_fast[OF a b c] by (simp add: no_rows_msg_def)
qed

section \<open>Dropping duplicates and sorting\<close>

lemma to_numeric_ignore_col_key: "to_numeric_ignore col = map (col_key col) col"
  by (simp add: to_numeric_ignore_def col_key_def)

lemma sort_keys_row_key: "sort_keys df = map (row_key df) df"
  by (simp add: sort_keys_def to_numeric_ignore_col_key row_key_def zip_map_map zip_same_conv_map)

lemma insort_key_fst_map:
  "insort_key fst (f x, x) (map (\<lambda>y. (f y, y)) ys) = map (\<lambda>y. (f y, y)) (insort_key f x ys)"
  by (induction ys) simp_all

lemma sort_key_fst_map:
  "sort_key fst (map (\<lambda>y. (f y, y)) xs) = map (\<lambda>y. (f y, y)) (sort_key f xs)"
  by (induction xs) (simp_all add: insort_key_fst_map)

lemma sort_values_sort_key: "sort_values df = sort_key (row_key df) df"
proof -
  have "zip (sort_keys df) df = map (\<lambda>y. (row_key df y, y)) df"
    by (simp add: sort_keys_row_key zip_map1 zip_same_conv_map)
  then show ?thesis
    by (simp add: sort_values_def sort_key_fst_map comp_def)
qed

lemma mset_sort_values: "mset (sort_values df) = mset df"
  by (simp add: sort_values_sort_key)




lemma mask_first_seen:
  "map fst (filter (\<lambda>(r, dup). \<not> dup) (zip xs (duplicated seen (map f xs)))) = first_seen f seen xs"
  by (induction xs arbitrary: seen) simp_all

lemma drop_duplicates_first_seen: "drop_duplicates df = first_seen key3 [] df"
  by (simp add: drop_duplicates_def mask_first_seen)

lemma length_duplicated: "length (duplicated seen ks) = length ks"
  by (induction ks arbitrary: seen) simp_all

lemma duplicated_nth:
  "i < length ks \<Longrightarrow> duplicated seen ks ! i \<longleftrightarrow> ks ! i \<in> set seen \<or> (\<exists>j<i. ks ! j = ks ! i)"
proof (induction ks arbitrary: seen i)
  case Nil
  then show ?case by simp
next
  case (Cons k ks)
  show ?case
  proof (cases i)
    case 0
    then show ?thesis by simp
  next
    case (Suc n)
    then have "n < length ks" using Cons.prems by simp
    from Cons.IH[OF this, of "k # seen"] Suc show ?thesis
      by (auto simp: less_Suc_eq_0_disj)
  qed
qed

lemma zip_index:
  assumes "length ms = length xs"
  shows "zip xs ms = map (\<lambda>i. (xs ! i, ms ! i)) [0..<length xs]"
proof (rule nth_equalityI)
  show "length (zip xs ms) = length (map (\<lambda>i. (xs ! i, ms ! i)) [0..<length xs])"
    using assms by simp
next
  fix i
  assume "i < length (zip xs ms)"
  then show "zip xs ms ! i = map (\<lambda>i. (xs ! i, ms ! i)) [0..<length xs] ! i"
    using assms by simp
qed

lemma filter_zip_index:
  assumes "length ms = length xs"
  shows "map fst (filter (\<lambda>(r, dup). \<not> dup) (zip xs ms)) =
         map ((!) xs) (filter (\<lambda>i. \<not> ms ! i) [0..<length xs])"
  unfolding zip_index[OF assms] by (simp add: filter_map comp_def)

lemma drop_duplicates_index:
  "drop_duplicates df =
     map ((!) df) (filter (\<lambda>i. \<forall>j<i. key3 (df ! j) \<noteq> key3 (df ! i)) [0..<length df])"
proof -
  have "filter (\<lambda>i. \<not> duplicated [] (map key3 df) ! i) [0..<length df]
      = filter (\<lambda>i. \<forall>j<i. key3 (df ! j) \<noteq> key3 (df ! i)) [0..<length df]"
    by (rule filter_cong) (auto simp: duplicated_nth)
  then show ?thesis
    unfolding drop_duplicates_def
    by (simp add: filter_zip_index length_duplicated)
qed

lemma filter_first_seen:
  "filter (\<lambda>x. f x = k) (first_seen f seen xs) =
     (if k \<in> set seen then [] else the_list (List.find (\<lambda>x. f x = k) xs))"
  by (induction xs arbitrary: seen) (auto simp: the_list_def)

lemma filter_normalize:
  assumes "List.find (\<lambda>x. key3 x = k) df = Some r"
  shows "filter (\<lambda>x. key3 x = k) (normalize df) = [r]"
proof -
  have "filter (\<lambda>x. key3 x = k) (drop_duplicates df) = [r]"
    using assms by (simp add: drop_duplicates_first_seen filter_first_seen the_list_def)
  moreover have "mset (filter (\<lambda>x. key3 x = k) (normalize df)) =
      mset (filter (\<lambda>x. key3 x = k) (drop_duplicates df))"
    by (simp add: normalize_def mset_sort_values)
  ultimately have "mset (filter (\<lambda>x. key3 x = k) (normalize df)) = {#r#}"
    by (simp del: mset_filter)
  then show ?thesis by (simp only: mset_single_iff)
qed

text \<open>
  C2. \<open>drop_duplicates\<close> keeps exactly the rows whose key
  \<open>(numero_garanzia, suffisso, job)\<close> occurs in no earlier row, in their order in the frame;
  the rows of the normalized frame are those rows; and whenever \<open>r\<close> is the first row of
  the frame with key \<open>k\<close>, it is the only row with key \<open>k\<close> in the normalized frame,
  whatever total the later rows with that key have.
\<close>

theorem normalize_keeps_first:
  "drop_duplicates df =
     map ((!) df) (filter (\<lambda>i. \<forall>j<i. key3 (df ! j) \<noteq> key3 (df ! i)) [0..<length df]) \<and>
   mset (normalize df) = mset (drop_duplicates df) \<and>
   (\<forall>k r. List.find (\<lambda>x. key3 x = k) df = Some r \<longrightarrow>
      filter (\<lambda>x. key3 x = k) (normalize df) = [r])"
  by (simp add: drop_duplicates_index [symmetric] normalize_def mset_sort_values
      filter_normalize [unfolded normalize_def])

text \<open>An instance of C2: of two rows with the same key, the one with 100 is kept, the one with 999 is not.\<close>

lemma first_rows_find:
  "List.find (\<lambda>x. key3 x = (''0000123'', ''001'', 1)) first_rows =
     Some \<lparr>numero_garanzia = ''0000123'', suffisso = ''001'', job = 1, totale_job = 100\<rparr>"
  by (simp add: first_rows_def key3_def)

theorem normalize_keeps_first_witness:
  "List.find (\<lambda>x. key3 x = (''0000123'', ''001'', 1)) first_rows =
     Some \<lparr>numero_garanzia = ''0000123'', suffisso = ''001'', job = 1, totale_job = 100\<rparr> \<and>
   filter (\<lambda>x. key3 x = (''0000123'', ''001'', 1)) (normalize first_rows) =
     [\<lparr>numero_garanzia = ''0000123'', suffisso = ''001'', job = 1, totale_job = 100\<rparr>]"
  using normalize_keeps_first[of first_rows] first_rows_find by blast

lemma Num_less_eq: "Num a \<le> Num b \<longleftrightarrow> a \<le> b"
  by simp
















section \<open>The match of \<open>ROW_RE\<close> at a position is the greedy one\<close>

lemma agreeD: "agree r \<Longrightarrow> matches r st = the_list (greedy r st)"
  unfolding agree_def by blast

lemma agreeI: "(\<And>prev rest caps. matches r ((prev, rest), caps) = the_list (greedy r ((prev, rest), caps))) \<Longrightarrow> agree r"
  unfolding agree_def by auto

lemma star_commit:
  assumes "\<And>prev' c cs. Q prev' \<Longrightarrow> p c \<Longrightarrow> k (prev', c # cs) = []"
    and "Q prev" and "\<And>c. p c \<Longrightarrow> Q (Some c)"
  shows "concat (map k (star p prev rest)) = k (skip p prev rest)"
  using assms(2)
proof (induction rest arbitrary: prev)
  case Nil
  then show ?case by simp
next
  case (Cons c cs)
  then show ?case using assms(1,3) by simp
qed

lemma agree_WordB: "agree WordB"
  by (simp add: agree_def the_list_def)

lemma agree_Bol: "agree r \<Longrightarrow> agree (Seq Bol r)"
  by (auto simp: agree_def the_list_def)

lemma agree_Star: 
  assumes "agree r" "rejects p r" shows "agree (Seq (Star p) r)"
proof -
  have "matches (Seq (Star p) r) ((prev, rest), caps) = the_list (greedy (Seq (Star p) r) ((prev, rest), caps))" for prev rest caps
  proof -
    have "matches (Seq (Star p) r) ((prev, rest), caps) = concat (map (\<lambda>q. matches r (q, caps)) (star p prev rest))"
      by (simp add: comp_def)
    also have "\<dots> = matches r (skip p prev rest, caps)"
      by (rule star_commit[where Q="\<lambda>_. True"]) (use assms(2) in \<open>auto simp: rejects_def\<close>)
    also have "\<dots> = the_list (greedy (Seq (Star p) r) ((prev, rest), caps))"
      using agreeD[OF assms(1)] by simp
    finally show ?thesis .
  qed
  then show ?thesis by (rule agreeI)
qed

lemma agree_Rep: "agree r \<Longrightarrow> agree (Seq (Group (Rep n p)) r)"
  by (auto simp: agree_def the_list_def capture_def split: option.splits)

lemma matches_Plus: "matches (Plus p) ((prev, rest), caps) =
   (case rest of [] \<Rightarrow> [] | c # cs \<Rightarrow> if p c then map (\<lambda>q. (q, caps)) (star p (Some c) cs) else [])"
  by (simp add: Plus_def split: list.splits)

lemma greedy_Plus: "greedy (Plus p) ((prev, rest), caps) =
   (case rest of [] \<Rightarrow> None | c # cs \<Rightarrow> if p c then Some (skip p (Some c) cs, caps) else None)"
  by (simp add: Plus_def split: list.splits)

lemma agree_Plus:
  assumes "agree r" "rejects p r" shows "agree (Seq (Plus p) r)"
proof -
  have "matches (Seq (Plus p) r) ((prev, rest), caps) = the_list (greedy (Seq (Plus p) r) ((prev, rest), caps))" for prev rest caps
  proof (cases rest)
    case Nil
    then show ?thesis by (simp add: matches_Plus greedy_Plus the_list_def)
  next
    case (Cons c cs)
    show ?thesis
    proof (cases "p c")
      case True
      have "matches (Seq (Plus p) r) ((prev, rest), caps) = concat (map (\<lambda>q. matches r (q, caps)) (star p (Some c) cs))"
        using Cons True by (simp add: matches_Plus comp_def)
      also have "\<dots> = matches r (skip p (Some c) cs, caps)"
        by (rule star_commit[where Q="\<lambda>_. True"]) (use assms(2) in \<open>auto simp: rejects_def\<close>)
      also have "\<dots> = the_list (greedy (Seq (Plus p) r) ((prev, rest), caps))"
        using agreeD[OF assms(1)] Cons True by (simp add: greedy_Plus)
      finally show ?thesis .
    next
      case False
      then show ?thesis using Cons by (simp add: matches_Plus greedy_Plus the_list_def)
    qed
  qed
  then show ?thesis by (rule agreeI)
qed

lemma agree_Group_Plus:
  assumes "agree r" "rejects p r" shows "agree (Seq (Group (Plus p)) r)"
proof -
  have "matches (Seq (Group (Plus p)) r) ((prev, rest), caps) = the_list (greedy (Seq (Group (Plus p)) r) ((prev, rest), caps))" for prev rest caps
  proof (cases rest)
    case Nil
    then show ?thesis by (simp add: matches_Plus greedy_Plus the_list_def)
  next
    case (Cons c cs)
    show ?thesis
    proof (cases "p c")
      case True
      have "matches (Seq (Group (Plus p)) r) ((prev, rest), caps) = concat (map (\<lambda>q. matches r (capture rest (q, caps))) (star p (Some c) cs))"
        using Cons True by (simp add: matches_Plus comp_def)
      also have "\<dots> = matches r (capture rest (skip p (Some c) cs, caps))"
        by (rule star_commit[where Q="\<lambda>_. True"]) (use assms(2) in \<open>auto simp: rejects_def capture_def\<close>)
      also have "\<dots> = the_list (greedy (Seq (Group (Plus p)) r) ((prev, rest), caps))"
        using agreeD[OF assms(1)] Cons True by (simp add: greedy_Plus)
      finally show ?thesis .
    next
      case False
      then show ?thesis using Cons by (simp add: matches_Plus greedy_Plus the_list_def)
    qed
  qed
  then show ?thesis by (rule agreeI)
qed

lemma rejects_Rep: "(\<And>c. p c \<Longrightarrow> \<not> q c) \<Longrightarrow> rejects p (Seq (Group (Rep (Suc n) q)) r)"
  by (simp add: rejects_def)

lemma rejects_Plus: "(\<And>c. p c \<Longrightarrow> \<not> q c) \<Longrightarrow> rejects p (Seq (Plus q) r)"
  by (simp add: rejects_def matches_Plus)

lemma rejects_Group_Plus: "(\<And>c. p c \<Longrightarrow> \<not> q c) \<Longrightarrow> rejects p (Seq (Group (Plus q)) r)"
  by (simp add: rejects_def matches_Plus)

lemma space_not_digit: "is_space c \<Longrightarrow> \<not> is_digit c"
  by (auto simp: is_space_def is_digit_def)

lemma digit_not_space: "is_digit c \<Longrightarrow> \<not> is_space c"
  by (auto simp: is_space_def is_digit_def)

lemma digit_word: "is_digit c \<Longrightarrow> is_word c"
  by (auto simp: is_word_def is_digit_def)

lemma space_not_minus: "is_space c \<Longrightarrow> \<not> is_minus c"
  by (auto simp: is_space_def is_minus_def)

lemma minus_not_digit: "is_minus c \<Longrightarrow> \<not> is_digit c"
  by (auto simp: is_digit_def is_minus_def)

lemma matches_NUM:
  "matches NUM ((prev, rest), caps) =
     (case rest of
        [] \<Rightarrow> []
      | c # cs \<Rightarrow> if is_minus c then matches (Plus is_digit) ((Some c, cs), caps)
                 else matches (Plus is_digit) ((prev, c # cs), caps))"
  by (auto simp: NUM_def matches_Plus minus_not_digit split: list.splits)

lemma greedy_NUM:
  "greedy NUM ((prev, rest), caps) =
     (case rest of
        [] \<Rightarrow> None
      | c # cs \<Rightarrow> if is_minus c then greedy (Plus is_digit) ((Some c, cs), caps)
                 else greedy (Plus is_digit) ((prev, c # cs), caps))"
  by (auto simp: NUM_def greedy_Plus minus_not_digit split: list.splits)

lemma Plus_WordB:
  "concat (map (\<lambda>st. matches WordB (capture rest0 st)) (matches (Plus is_digit) ((prev, rest), caps))) =
   the_list (Option.bind (map_option (capture rest0) (greedy (Plus is_digit) ((prev, rest), caps))) (greedy WordB))"
proof (cases rest)
  case Nil
  then show ?thesis by (simp add: matches_Plus greedy_Plus the_list_def)
next
  case (Cons c cs)
  show ?thesis
  proof (cases "is_digit c")
    case True
    have "concat (map (\<lambda>st. matches WordB (capture rest0 st)) (matches (Plus is_digit) ((prev, rest), caps)))
        = concat (map (\<lambda>q. matches WordB (capture rest0 (q, caps))) (star is_digit (Some c) cs))"
      using Cons True by (simp add: matches_Plus comp_def)
    also have "\<dots> = matches WordB (capture rest0 (skip is_digit (Some c) cs, caps))"
      by (rule star_commit[where Q="\<lambda>x. word_before x"])
         (use True in \<open>auto simp: capture_def word_before_def word_after_def digit_word\<close>)
    also have "\<dots> = the_list (Option.bind (map_option (capture rest0) (greedy (Plus is_digit) ((prev, rest), caps))) (greedy WordB))"
      using Cons True by (cases "skip is_digit (Some c) cs") (simp add: greedy_Plus capture_def the_list_def)
    finally show ?thesis .
  next
    case False
    then show ?thesis using Cons by (simp add: matches_Plus greedy_Plus the_list_def)
  qed
qed

lemma agree_SIGNED: "agree (Seq (Group NUM) WordB)"
proof (rule agreeI)
  fix prev rest caps
  show "matches (Seq (Group NUM) WordB) ((prev, rest), caps) = the_list (greedy (Seq (Group NUM) WordB) ((prev, rest), caps))"
  proof (cases rest)
    case Nil
    then show ?thesis by (simp add: matches_NUM greedy_NUM the_list_def)
  next
    case (Cons c cs)
    then show ?thesis
      using Plus_WordB[of rest "Some c" cs caps] Plus_WordB[of rest prev rest caps]
      by (simp add: matches_NUM greedy_NUM comp_def)
  qed
qed

lemma rejects_NUM: "rejects is_space (Seq (Group NUM) r)"
  by (auto simp: rejects_def matches_NUM matches_Plus space_not_minus space_not_digit)

lemma agree_ROW_RE: "agree ROW_RE"
  unfolding ROW_RE_def
  by (intro agree_Bol agree_Star agree_Rep agree_Plus agree_Group_Plus agree_SIGNED
        rejects_Rep[of _ _ 6, simplified] rejects_Plus rejects_Group_Plus rejects_NUM space_not_digit digit_not_space)

lemma match_at_greedy: "match_at ROW_RE q = greedy ROW_RE (q, [])"
  by (simp add: match_at_def agreeD[OF agree_ROW_RE] the_list_def split: option.splits)

section \<open>What a match of \<open>ROW_RE\<close> looks like\<close>

lemma skip_split:
  "skip p prev rest = (prev', rest') \<Longrightarrow>
     \<exists>xs. rest = xs @ rest' \<and> list_all p xs \<and> prev' = prev_after prev xs"
proof (induction rest arbitrary: prev)
  case Nil
  then show ?case by (simp add: prev_after_def)
next
  case (Cons c cs)
  show ?case
  proof (cases "p c")
    case True
    with Cons.prems have "skip p (Some c) cs = (prev', rest')" by simp
    from Cons.IH[OF this] obtain xs where
      "cs = xs @ rest'" "list_all p xs" "prev' = prev_after (Some c) xs" by blast
    with True have "c # cs = (c # xs) @ rest' \<and> list_all p (c # xs) \<and> prev' = prev_after prev (c # xs)"
      by (simp add: prev_after_def)
    then show ?thesis by blast
  next
    case False
    with Cons.prems have "c # cs = [] @ rest' \<and> list_all p [] \<and> prev' = prev_after prev []"
      by (simp add: prev_after_def)
    then show ?thesis by blast
  qed
qed

lemma rep_split:
  "rep n p prev rest = Some (prev', rest') \<Longrightarrow>
     \<exists>xs. rest = xs @ rest' \<and> length xs = n \<and> list_all p xs"
proof (induction n arbitrary: prev rest)
  case 0
  then show ?case by simp
next
  case (Suc n)
  then obtain c cs where rest: "rest = c # cs" by (cases rest) auto
  with Suc.prems have pc: "p c" and r: "rep n p (Some c) cs = Some (prev', rest')"
    by (auto split: if_splits)
  from Suc.IH[OF r] obtain xs where "cs = xs @ rest'" "length xs = n" "list_all p xs" by blast
  with rest pc have "rest = (c # xs) @ rest' \<and> length (c # xs) = Suc n \<and> list_all p (c # xs)"
    by simp
  then show ?case by blast
qed

lemma capture_append: "capture (xs @ ys) ((prev, ys), caps) = ((prev, ys), caps @ [xs])"
  by (simp add: capture_def)

lemma Seq_Bol_D:
  assumes "greedy (Seq Bol r) ((prev, rest), caps) = Some st"
  shows "(prev = None \<or> prev = Some (CHR 0x0A)) \<and> greedy r ((prev, rest), caps) = Some st"
  using assms by (auto split: if_splits)

lemma Seq_Star_D:
  assumes "greedy (Seq (Star p) r) ((prev, rest), caps) = Some st"
  shows "\<exists>xs ys prev1. rest = xs @ ys \<and> list_all p xs \<and> greedy r ((prev1, ys), caps) = Some st"
proof -
  obtain prev1 ys where s: "skip p prev rest = (prev1, ys)" by (cases "skip p prev rest")
  from skip_split[OF s] assms s show ?thesis by auto
qed

lemma Seq_Plus_D:
  assumes "greedy (Seq (Plus p) r) ((prev, rest), caps) = Some st"
  shows "\<exists>xs ys prev1. xs \<noteq> [] \<and> rest = xs @ ys \<and> list_all p xs \<and>
           greedy r ((prev1, ys), caps) = Some st"
proof -
  from assms obtain c cs where rest: "rest = c # cs" and pc: "p c"
    by (cases rest) (auto simp: greedy_Plus split: if_splits)
  obtain prev1 ys where s: "skip p (Some c) cs = (prev1, ys)" by (cases "skip p (Some c) cs")
  from skip_split[OF s] obtain xs where xs: "cs = xs @ ys" "list_all p xs" by blast
  from assms rest pc s have "greedy r ((prev1, ys), caps) = Some st"
    by (simp add: greedy_Plus)
  with rest pc xs have "c # xs \<noteq> [] \<and> rest = (c # xs) @ ys \<and> list_all p (c # xs) \<and>
      greedy r ((prev1, ys), caps) = Some st" by simp
  then show ?thesis by blast
qed

lemma Seq_Group_Plus_D:
  assumes "greedy (Seq (Group (Plus p)) r) ((prev, rest), caps) = Some st"
  shows "\<exists>xs ys prev1. xs \<noteq> [] \<and> rest = xs @ ys \<and> list_all p xs \<and>
           greedy r ((prev1, ys), caps @ [xs]) = Some st"
proof -
  from assms obtain c cs where rest: "rest = c # cs" and pc: "p c"
    by (cases rest) (auto simp: greedy_Plus split: if_splits)
  obtain prev1 ys where s: "skip p (Some c) cs = (prev1, ys)" by (cases "skip p (Some c) cs")
  from skip_split[OF s] obtain xs where xs: "cs = xs @ ys" "list_all p xs" by blast
  have "capture rest ((prev1, ys), caps) = ((prev1, ys), caps @ [c # xs])"
    using capture_append[of "c # xs" ys prev1 caps] rest xs by simp
  with assms rest pc s have "greedy r ((prev1, ys), caps @ [c # xs]) = Some st"
    by (simp add: greedy_Plus)
  with rest pc xs have "c # xs \<noteq> [] \<and> rest = (c # xs) @ ys \<and> list_all p (c # xs) \<and>
      greedy r ((prev1, ys), caps @ [c # xs]) = Some st" by simp
  then show ?thesis by blast
qed

lemma Seq_Group_Rep_D:
  assumes "greedy (Seq (Group (Rep n p)) r) ((prev, rest), caps) = Some st"
  shows "\<exists>xs ys prev1. length xs = n \<and> rest = xs @ ys \<and> list_all p xs \<and>
           greedy r ((prev1, ys), caps @ [xs]) = Some st"
proof -
  from assms obtain prev1 ys where s: "rep n p prev rest = Some (prev1, ys)"
    by (cases "rep n p prev rest") auto
  from rep_split[OF s] obtain xs where xs: "rest = xs @ ys" "length xs = n" "list_all p xs" by blast
  have "capture rest ((prev1, ys), caps) = ((prev1, ys), caps @ [xs])"
    using capture_append[of xs ys prev1 caps] xs by simp
  with assms s have "greedy r ((prev1, ys), caps @ [xs]) = Some st" by simp
  with xs show ?thesis by blast
qed

lemma Group_NUM_D:
  assumes "greedy (Seq (Group NUM) r) ((prev, rest), caps) = Some st"
  shows "\<exists>xs ys prev1. signed_digits xs \<and> rest = xs @ ys \<and>
           greedy r ((prev1, ys), caps @ [xs]) = Some st"
proof -
  from assms obtain c cs where rest: "rest = c # cs"
    by (cases rest) (auto simp: greedy_NUM)
  show ?thesis
  proof (cases "is_minus c")
    case True
    with assms rest obtain d ds where cs: "cs = d # ds" and pd: "is_digit d"
      by (cases cs) (auto simp: greedy_NUM greedy_Plus split: if_splits)
    obtain prev1 ys where s: "skip is_digit (Some d) ds = (prev1, ys)"
      by (cases "skip is_digit (Some d) ds")
    from skip_split[OF s] obtain xs where xs: "ds = xs @ ys" "list_all is_digit xs" by blast
    have "capture rest ((prev1, ys), caps) = ((prev1, ys), caps @ [c # d # xs])"
      using capture_append[of "c # d # xs" ys prev1 caps] rest cs xs by simp
    with assms rest cs True pd s have "greedy r ((prev1, ys), caps @ [c # d # xs]) = Some st"
      by (simp add: greedy_NUM greedy_Plus)
    moreover have "signed_digits (c # d # xs)"
      using True pd xs by (simp add: signed_digits_def all_digits_def is_minus_def)
    moreover have "rest = (c # d # xs) @ ys" using rest cs xs by simp
    ultimately show ?thesis by blast
  next
    case False
    with assms rest have pc: "is_digit c"
      by (auto simp: greedy_NUM greedy_Plus split: if_splits)
    obtain prev1 ys where s: "skip is_digit (Some c) cs = (prev1, ys)"
      by (cases "skip is_digit (Some c) cs")
    from skip_split[OF s] obtain xs where xs: "cs = xs @ ys" "list_all is_digit xs" by blast
    have "capture rest ((prev1, ys), caps) = ((prev1, ys), caps @ [c # xs])"
      using capture_append[of "c # xs" ys prev1 caps] rest xs by simp
    with assms rest False pc s have "greedy r ((prev1, ys), caps @ [c # xs]) = Some st"
      by (simp add: greedy_NUM greedy_Plus)
    moreover have "signed_digits (c # xs)"
      using pc xs by (simp add: signed_digits_def all_digits_def)
    moreover have "rest = (c # xs) @ ys" using rest xs by simp
    ultimately show ?thesis by blast
  qed
qed

lemma WordB_D: "greedy WordB ((prev, rest), caps) = Some (q, caps') \<Longrightarrow> caps' = caps"
  by (auto split: if_splits)

lemma greedy_ROW_RE_D:
  assumes "greedy ROW_RE ((prev, rest), []) = Some (q, caps)"
  shows "caps_ok caps \<and> (\<exists>c\<in>set rest. is_digit c)"
proof -
  note a = assms[unfolded ROW_RE_def]
  from Seq_Bol_D[OF a] have a0: "greedy (Seq (Star is_space)
       (Seq (Group (Rep 7 is_digit)) (Seq (Plus is_space)
         (Seq (Group (Plus is_digit)) (Seq (Plus is_space)
           (Seq (Group (Plus is_digit)) (Seq (Plus is_space)
             (Seq (Group NUM) WordB)))))))) ((prev, rest), []) = Some (q, caps)" by simp
  from Seq_Star_D[OF a0] obtain ws0 r0 p0 where 0: "rest = ws0 @ r0"
    and a1: "greedy (Seq (Group (Rep 7 is_digit)) (Seq (Plus is_space)
         (Seq (Group (Plus is_digit)) (Seq (Plus is_space)
           (Seq (Group (Plus is_digit)) (Seq (Plus is_space)
             (Seq (Group NUM) WordB))))))) ((p0, r0), []) = Some (q, caps)" by blast
  from Seq_Group_Rep_D[OF a1] obtain g1 r1 p1 where 1: "length g1 = 7" "r0 = g1 @ r1" "list_all is_digit g1"
    and a2: "greedy (Seq (Plus is_space)
         (Seq (Group (Plus is_digit)) (Seq (Plus is_space)
           (Seq (Group (Plus is_digit)) (Seq (Plus is_space)
             (Seq (Group NUM) WordB)))))) ((p1, r1), [] @ [g1]) = Some (q, caps)" by blast
  from Seq_Plus_D[OF a2] obtain ws1 r2 p2 where
    a3: "greedy (Seq (Group (Plus is_digit)) (Seq (Plus is_space)
           (Seq (Group (Plus is_digit)) (Seq (Plus is_space)
             (Seq (Group NUM) WordB))))) ((p2, r2), [] @ [g1]) = Some (q, caps)" by blast
  from Seq_Group_Plus_D[OF a3] obtain g2 r3 p3 where 2: "g2 \<noteq> []" "list_all is_digit g2"
    and a4: "greedy (Seq (Plus is_space)
           (Seq (Group (Plus is_digit)) (Seq (Plus is_space)
             (Seq (Group NUM) WordB)))) ((p3, r3), ([] @ [g1]) @ [g2]) = Some (q, caps)" by blast
  from Seq_Plus_D[OF a4] obtain ws2 r4 p4 where
    a5: "greedy (Seq (Group (Plus is_digit)) (Seq (Plus is_space)
             (Seq (Group NUM) WordB))) ((p4, r4), ([] @ [g1]) @ [g2]) = Some (q, caps)" by blast
  from Seq_Group_Plus_D[OF a5] obtain g3 r5 p5 where 3: "g3 \<noteq> []" "list_all is_digit g3"
    and a6: "greedy (Seq (Plus is_space)
             (Seq (Group NUM) WordB)) ((p5, r5), (([] @ [g1]) @ [g2]) @ [g3]) = Some (q, caps)" by blast
  from Seq_Plus_D[OF a6] obtain ws3 r6 p6 where
    a7: "greedy (Seq (Group NUM) WordB) ((p6, r6), (([] @ [g1]) @ [g2]) @ [g3]) = Some (q, caps)" by blast
  from Group_NUM_D[OF a7] obtain g4 r7 p7 where 4: "signed_digits g4"
    and a8: "greedy WordB ((p7, r7), ((([] @ [g1]) @ [g2]) @ [g3]) @ [g4]) = Some (q, caps)" by blast
  from WordB_D[OF a8] have "caps = [g1, g2, g3, g4]" by simp
  with 1 2 3 4 have "caps_ok caps" by (auto simp: caps_ok_def all_digits_def)
  moreover from 1 obtain c where "c \<in> set g1" "is_digit c"
    by (cases g1) (auto)
  with 0 1 have "\<exists>c\<in>set rest. is_digit c" by auto
  ultimately show ?thesis by blast
qed

lemma scan_caps:
  assumes "\<And>q q' caps. match_at r q = Some (q', caps) \<Longrightarrow> Q caps"
  shows "list_all Q (scan r (prev, rest))"
proof (induction "length rest" arbitrary: prev rest rule: less_induct)
  case less
  have tail: "list_all Q (case rest of [] \<Rightarrow> [] | c # cs \<Rightarrow> scan r (Some c, cs))"
    using less by (cases rest) simp_all
  show ?case
  proof (cases "match_at r (prev, rest)")
    case None
    then have "scan r (prev, rest) = (case rest of [] \<Rightarrow> [] | c # cs \<Rightarrow> scan r (Some c, cs))"
      by (subst scan.simps) simp
    with tail show ?thesis by simp
  next
    case (Some st)
    obtain prev' rest' caps where st: "st = ((prev', rest'), caps)"
      by (cases st) auto
    have q: "Q caps" using assms Some st by blast
    show ?thesis
    proof (cases "length rest' < length rest")
      case True
      then have "scan r (prev, rest) = caps # scan r (prev', rest')"
        using Some st by (subst scan.simps) simp
      with q less[OF True] show ?thesis by simp
    next
      case False
      then have "scan r (prev, rest) =
          caps # (case rest of [] \<Rightarrow> [] | c # cs \<Rightarrow> scan r (Some c, cs))"
        using Some st by (subst scan.simps) simp
      with q tail show ?thesis by simp
    qed
  qed
qed

lemma scan_Nil:
  assumes "\<And>prev n. match_at r (prev, drop n rest) = None"
  shows "scan r (prev, rest) = []"
  using assms
proof (induction rest arbitrary: prev)
  case Nil
  from Nil[of _ 0] show ?case by (subst scan.simps) simp
next
  case (Cons c cs)
  have "match_at r (prev', drop n cs) = None" for prev' n
    using Cons.prems[of prev' "Suc n"] by simp
  from Cons.IH[OF this] Cons.prems[of prev 0] show ?case
    by (subst scan.simps) simp
qed

lemma scan_nonempty:
  assumes "match_at r (prev_after prev xs, ys) \<noteq> None"
  shows "scan r (prev, xs @ ys) \<noteq> []"
  using assms
proof (induction xs arbitrary: prev)
  case Nil
  then show ?case
    by (subst scan.simps) (auto simp: prev_after_def split: option.splits)
next
  case (Cons x xs)
  have "prev_after prev (x # xs) = prev_after (Some x) xs"
    by (simp add: prev_after_def)
  with Cons.prems have "match_at r (prev_after (Some x) xs, ys) \<noteq> None" by simp
  from Cons.IH[OF this] show ?case
    by (subst scan.simps) (auto split: option.splits)
qed

lemma to_int_digits: "all_digits s \<Longrightarrow> to_int s = int (nat_of_digits s)"
  by (cases s) (auto simp: to_int_def all_digits_def dest: minus_not_digit)

lemma frame_row_ok: "caps_ok caps \<Longrightarrow> \<exists>r. frame_row caps = Some r \<and> row_ok r"
  by (auto simp: caps_ok_def frame_row_def row_ok_def to_int_digits) (simp_all add: all_digits_def)

lemma those_map_Some:
  assumes "list_all (\<lambda>x. \<exists>y. f x = Some y \<and> P y) xs"
  shows "\<exists>ys. those (map f xs) = Some ys \<and> list_all P ys \<and> length ys = length xs"
  using assms by (induction xs) auto

lemma findall_caps_ok: "list_all caps_ok (findall ROW_RE text)"
  unfolding findall_def
proof (rule scan_caps)
  fix q q' caps
  assume "match_at ROW_RE q = Some (q', caps)"
  then have "greedy ROW_RE ((fst q, snd q), []) = Some (q', caps)"
    by (simp add: match_at_greedy)
  from greedy_ROW_RE_D[OF this] show "caps_ok caps" by blast
qed

lemma data_frame_findall:
  "\<exists>df. data_frame (findall ROW_RE text) = Inr df \<and> list_all row_ok df \<and>
        length df = length (findall ROW_RE text)"
proof -
  have "list_all (\<lambda>caps. \<exists>r. frame_row caps = Some r \<and> row_ok r) (findall ROW_RE text)"
    using findall_caps_ok[of "text"] frame_row_ok by (auto simp: list_all_iff)
  from those_map_Some[OF this] show ?thesis by (auto simp: data_frame_def)
qed

lemma extract_rows_cases:
  "(findall ROW_RE text = [] \<and> extract_rows text = Inl (ValueError no_rows_msg)) \<or>
   (findall ROW_RE text \<noteq> [] \<and> (\<exists>df. extract_rows text = Inr df \<and> df \<noteq> [] \<and> list_all row_ok df))"
proof (cases "findall ROW_RE text = []")
  case True
  then show ?thesis by (simp add: extract_rows_def)
next
  case False
  from data_frame_findall[of "text"] obtain df where
    "data_frame (findall ROW_RE text) = Inr df" "list_all row_ok df"
    "length df = length (findall ROW_RE text)" by blast
  with False show ?thesis by (auto simp: extract_rows_def Let_def)
qed

lemma no_digit_no_match:
  assumes "\<forall>c\<in>set text. \<not> is_digit c"
  shows "findall ROW_RE text = []"
  unfolding findall_def
proof (rule scan_Nil)
  fix prev n
  show "match_at ROW_RE (prev, drop n text) = None"
  proof (cases "match_at ROW_RE (prev, drop n text)")
    case None
    then show ?thesis .
  next
    case (Some st)
    then have "greedy ROW_RE ((prev, drop n text), []) = Some (fst st, snd st)"
      by (simp add: match_at_greedy)
    from greedy_ROW_RE_D[OF this] obtain c where "c \<in> set (drop n text)" "is_digit c" by blast
    with assms show ?thesis using in_set_dropD by fastforce
  qed
qed

lemma extendsI:
  "(\<And>prev rest caps p' r' c'. greedy r ((prev, rest), caps) = Some ((p', r'), c') \<Longrightarrow>
      greedy r ((prev, rest @ post), caps) = Some ((p', r' @ post), c')) \<Longrightarrow> extends post r"
  unfolding extends_def by blast

lemma extendsD:
  "extends post r \<Longrightarrow> greedy r ((prev, rest), caps) = Some ((p', r'), c') \<Longrightarrow>
      greedy r ((prev, rest @ post), caps) = Some ((p', r' @ post), c')"
  unfolding extends_def by blast

lemma needs_charD: "needs_char r \<Longrightarrow> greedy r ((prev, rest), caps) = Some st \<Longrightarrow> rest \<noteq> []"
  unfolding needs_char_def by (cases rest) auto

lemma skip_extend:
  "skip p prev rest = (prev', r') \<Longrightarrow> r' \<noteq> [] \<or> (case post of [] \<Rightarrow> True | c # _ \<Rightarrow> \<not> p c) \<Longrightarrow>
     skip p prev (rest @ post) = (prev', r' @ post)"
proof (induction rest arbitrary: prev)
  case Nil
  then show ?case by (cases post) auto
next
  case (Cons c cs)
  then show ?case by (cases "p c") auto
qed

lemma rep_extend:
  "rep n p prev rest = Some (prev', r') \<Longrightarrow> rep n p prev (rest @ post) = Some (prev', r' @ post)"
proof (induction n arbitrary: prev rest)
  case 0
  then show ?case by simp
next
  case (Suc n)
  then show ?case by (cases rest) (auto split: if_splits)
qed

lemma skip_length: "skip p prev rest = (prev', r') \<Longrightarrow> length r' \<le> length rest"
  using skip_split[of p prev rest prev' r'] by auto

lemma capture_extend:
  "length r' \<le> length rest \<Longrightarrow>
     capture (rest @ post) ((p', r' @ post), caps) =
       ((p', r' @ post), snd (capture rest ((p', r'), caps)))"
  by (simp add: capture_def)

lemma extends_WordB: "good_post post \<Longrightarrow> extends post WordB"
proof (rule extendsI)
  fix prev rest caps p' r' c'
  assume g: "good_post post" and a: "greedy WordB ((prev, rest), caps) = Some ((p', r'), c')"
  have "word_after (rest @ post) = word_after rest"
    using g by (cases rest; cases post) (auto simp: word_after_def good_post_def)
  with a show "greedy WordB ((prev, rest @ post), caps) = Some ((p', r' @ post), c')"
    by (auto split: if_splits)
qed

lemma extends_Bol: "extends post r \<Longrightarrow> extends post (Seq Bol r)"
  by (rule extendsI) (auto dest: extendsD split: if_splits)

lemma extends_Star:
  assumes "extends post r" "needs_char r"
  shows "extends post (Seq (Star p) r)"
proof (rule extendsI)
  fix prev rest caps p' r' c'
  assume a: "greedy (Seq (Star p) r) ((prev, rest), caps) = Some ((p', r'), c')"
  obtain p1 r1 where s: "skip p prev rest = (p1, r1)" by (cases "skip p prev rest")
  with a have b: "greedy r ((p1, r1), caps) = Some ((p', r'), c')" by simp
  from needs_charD[OF assms(2) b] have "r1 \<noteq> []" .
  with skip_extend[OF s] have "skip p prev (rest @ post) = (p1, r1 @ post)" by blast
  with extendsD[OF assms(1) b]
  show "greedy (Seq (Star p) r) ((prev, rest @ post), caps) = Some ((p', r' @ post), c')"
    by simp
qed

lemma extends_Plus:
  assumes "extends post r" "needs_char r"
  shows "extends post (Seq (Plus p) r)"
proof (rule extendsI)
  fix prev rest caps p' r' c'
  assume a: "greedy (Seq (Plus p) r) ((prev, rest), caps) = Some ((p', r'), c')"
  then obtain c cs where rest: "rest = c # cs" and pc: "p c"
    by (cases rest) (auto simp: greedy_Plus split: if_splits)
  obtain p1 r1 where s: "skip p (Some c) cs = (p1, r1)" by (cases "skip p (Some c) cs")
  with a rest pc have b: "greedy r ((p1, r1), caps) = Some ((p', r'), c')"
    by (simp add: greedy_Plus)
  from needs_charD[OF assms(2) b] have "r1 \<noteq> []" .
  with skip_extend[OF s] have "skip p (Some c) (cs @ post) = (p1, r1 @ post)" by blast
  with extendsD[OF assms(1) b] rest pc
  show "greedy (Seq (Plus p) r) ((prev, rest @ post), caps) = Some ((p', r' @ post), c')"
    by (simp add: greedy_Plus)
qed

lemma extends_Group_Plus:
  assumes "extends post r" "needs_char r"
  shows "extends post (Seq (Group (Plus p)) r)"
proof (rule extendsI)
  fix prev rest caps p' r' c'
  assume a: "greedy (Seq (Group (Plus p)) r) ((prev, rest), caps) = Some ((p', r'), c')"
  then obtain c cs where rest: "rest = c # cs" and pc: "p c"
    by (cases rest) (auto simp: greedy_Plus split: if_splits)
  obtain p1 r1 where s: "skip p (Some c) cs = (p1, r1)" by (cases "skip p (Some c) cs")
  obtain caps1 where c1: "capture rest ((p1, r1), caps) = ((p1, r1), caps1)"
    by (simp add: capture_def)
  with a rest pc s have b: "greedy r ((p1, r1), caps1) = Some ((p', r'), c')"
    by (simp add: greedy_Plus)
  from needs_charD[OF assms(2) b] have "r1 \<noteq> []" .
  with skip_extend[OF s] have s': "skip p (Some c) (cs @ post) = (p1, r1 @ post)" by blast
  have "length r1 \<le> length rest" using skip_length[OF s] rest by simp
  from capture_extend[OF this] c1
  have "capture (rest @ post) ((p1, r1 @ post), caps) = ((p1, r1 @ post), caps1)" by simp
  with extendsD[OF assms(1) b] rest pc s'
  show "greedy (Seq (Group (Plus p)) r) ((prev, rest @ post), caps) = Some ((p', r' @ post), c')"
    by (simp add: greedy_Plus)
qed

lemma rep_length: "rep n p prev rest = Some (prev', r') \<Longrightarrow> length r' \<le> length rest"
  using rep_split[of n p prev rest prev' r'] by auto

lemma extends_Group_Rep:
  assumes "extends post r"
  shows "extends post (Seq (Group (Rep n p)) r)"
proof (rule extendsI)
  fix prev rest caps p' r' c'
  assume a: "greedy (Seq (Group (Rep n p)) r) ((prev, rest), caps) = Some ((p', r'), c')"
  then obtain p1 r1 where s: "rep n p prev rest = Some (p1, r1)"
    by (cases "rep n p prev rest") auto
  obtain caps1 where c1: "capture rest ((p1, r1), caps) = ((p1, r1), caps1)"
    by (simp add: capture_def)
  with a s have b: "greedy r ((p1, r1), caps1) = Some ((p', r'), c')" by simp
  from capture_extend[OF rep_length[OF s]] c1
  have "capture (rest @ post) ((p1, r1 @ post), caps) = ((p1, r1 @ post), caps1)" by simp
  with extendsD[OF assms(1) b] rep_extend[OF s]
  show "greedy (Seq (Group (Rep n p)) r) ((prev, rest @ post), caps) = Some ((p', r' @ post), c')"
    by simp
qed

lemma good_post_digit: "good_post post \<Longrightarrow> (case post of [] \<Rightarrow> True | c # _ \<Rightarrow> \<not> is_digit c)"
  by (auto simp: good_post_def digit_word split: list.splits)

lemma Plus_digit_extend:
  assumes "good_post post"
    and "greedy (Plus is_digit) ((prev, rest), caps) = Some ((p1, r1), caps1)"
  shows "greedy (Plus is_digit) ((prev, rest @ post), caps) = Some ((p1, r1 @ post), caps1)"
proof -
  from assms(2) obtain c cs where rest: "rest = c # cs" and pc: "is_digit c"
    by (cases rest) (auto simp: greedy_Plus split: if_splits)
  with assms(2) have s: "skip is_digit (Some c) cs = (p1, r1)" and "caps1 = caps"
    by (simp_all add: greedy_Plus)
  with skip_extend[OF s, of post] good_post_digit[OF assms(1)] rest pc show ?thesis
    by (simp add: greedy_Plus)
qed

lemma NUM_extend:
  assumes "good_post post"
    and "greedy NUM ((prev, rest), caps) = Some ((p1, r1), caps1)"
  shows "greedy NUM ((prev, rest @ post), caps) = Some ((p1, r1 @ post), caps1)"
proof -
  from assms(2) obtain c cs where rest: "rest = c # cs"
    by (cases rest) (auto simp: greedy_NUM)
  show ?thesis
  proof (cases "is_minus c")
    case True
    with assms(2) rest have "greedy (Plus is_digit) ((Some c, cs), caps) = Some ((p1, r1), caps1)"
      by (simp add: greedy_NUM)
    from Plus_digit_extend[OF assms(1) this] True rest show ?thesis
      by (simp add: greedy_NUM)
  next
    case False
    with assms(2) rest have "greedy (Plus is_digit) ((prev, c # cs), caps) = Some ((p1, r1), caps1)"
      by (simp add: greedy_NUM)
    from Plus_digit_extend[OF assms(1) this] False rest show ?thesis
      by (simp add: greedy_NUM)
  qed
qed

lemma greedy_length:
  "greedy r ((prev, rest), caps) = Some ((p', r'), c') \<Longrightarrow> length r' \<le> length rest"
proof (induction r arbitrary: prev rest caps p' r' c')
  case Bol
  then show ?case by (auto split: if_splits)
next
  case WordB
  then show ?case by (auto split: if_splits)
next
  case (Cls x)
  then show ?case by (auto split: if_splits list.splits)
next
  case (Star x)
  then show ?case by (auto dest: skip_length)
next
  case (Rep x1 x2)
  then show ?case by (auto dest: rep_length)
next
  case (Opt r)
  then show ?case by (auto split: option.splits)
next
  case (Seq r1 r2)
  from Seq.prems obtain p1 q1 c1 where a: "greedy r1 ((prev, rest), caps) = Some ((p1, q1), c1)"
    and b: "greedy r2 ((p1, q1), c1) = Some ((p', r'), c')"
    by (cases "greedy r1 ((prev, rest), caps)") auto
  from Seq.IH(1)[OF a] Seq.IH(2)[OF b] show ?case by simp
next
  case (Group r)
  then show ?case by (auto simp: capture_def split: prod.splits)
qed

lemma extends_Group_NUM:
  assumes "good_post post" "extends post r"
  shows "extends post (Seq (Group NUM) r)"
proof (rule extendsI)
  fix prev rest caps p' r' c'
  assume a: "greedy (Seq (Group NUM) r) ((prev, rest), caps) = Some ((p', r'), c')"
  then obtain p1 r1 caps0 where s: "greedy NUM ((prev, rest), caps) = Some ((p1, r1), caps0)"
    by (cases "greedy NUM ((prev, rest), caps)") auto
  obtain caps1 where c1: "capture rest ((p1, r1), caps0) = ((p1, r1), caps1)"
    by (simp add: capture_def)
  with a s have b: "greedy r ((p1, r1), caps1) = Some ((p', r'), c')" by simp
  from capture_extend[OF greedy_length[OF s]] c1
  have "capture (rest @ post) ((p1, r1 @ post), caps0) = ((p1, r1 @ post), caps1)" by simp
  with extendsD[OF assms(2) b] NUM_extend[OF assms(1) s]
  show "greedy (Seq (Group NUM) r) ((prev, rest @ post), caps) = Some ((p', r' @ post), c')"
    by simp
qed

lemma needs_char_Plus: "needs_char (Seq (Plus p) r)"
  by (simp add: needs_char_def greedy_Plus)

lemma needs_char_Group_Plus: "needs_char (Seq (Group (Plus p)) r)"
  by (simp add: needs_char_def greedy_Plus)

lemma needs_char_Group_Rep: "needs_char (Seq (Group (Rep (Suc n) p)) r)"
  by (simp add: needs_char_def)

lemma needs_char_Group_NUM: "needs_char (Seq (Group NUM) r)"
  by (simp add: needs_char_def greedy_NUM)

lemma extends_ROW_RE: "good_post post \<Longrightarrow> extends post ROW_RE"
  unfolding ROW_RE_def
  by (intro extends_Bol extends_Star extends_Group_Rep extends_Plus extends_Group_Plus
      extends_Group_NUM extends_WordB needs_char_Plus needs_char_Group_Plus
      needs_char_Group_Rep[of 6, simplified] needs_char_Group_NUM)

lemma Star_Rep_prev:
  "greedy (Seq (Star p) (Seq (Group (Rep (Suc n) q)) r)) ((prev, rest), caps) =
   greedy (Seq (Star p) (Seq (Group (Rep (Suc n) q)) r)) ((prev2, rest), caps)"
proof (cases rest)
  case Nil
  then show ?thesis by simp
next
  case (Cons c cs)
  then show ?thesis by (cases "p c") simp_all
qed

lemma greedy_ROW_RE_line_start:
  assumes "prev = None \<or> prev = Some (CHR 0x0A)" "prev2 = None \<or> prev2 = Some (CHR 0x0A)"
  shows "greedy ROW_RE ((prev, rest), caps) = greedy ROW_RE ((prev2, rest), caps)"
proof -
  have "greedy (Seq (Star is_space) (Seq (Group (Rep (Suc 6) is_digit)) r)) ((prev, rest), caps) =
        greedy (Seq (Star is_space) (Seq (Group (Rep (Suc 6) is_digit)) r)) ((prev2, rest), caps)" for r
    by (rule Star_Rep_prev)
  then show ?thesis
    using assms unfolding ROW_RE_def by (simp del: greedy.simps(7) add: greedy.simps(7)[of Bol])
qed

lemma split_lines_hd:
  "\<exists>l ls post. split_lines tx = l # ls \<and> tx = l @ post \<and> (post = [] \<or> hd post = CHR 0x0A)"
proof (induction tx)
  case Nil
  then show ?case by simp
next
  case (Cons c cs)
  then obtain l ls post where
    "split_lines cs = l # ls" "cs = l @ post" "post = [] \<or> hd post = CHR 0x0A" by blast
  then show ?case by (cases "c = CHR 0x0A") auto
qed

lemma split_lines_tl:
  "l \<in> set (tl (split_lines tx)) \<Longrightarrow>
     \<exists>pre post. tx = pre @ l @ post \<and> pre \<noteq> [] \<and> last pre = CHR 0x0A \<and>
                (post = [] \<or> hd post = CHR 0x0A)"
proof (induction tx arbitrary: l)
  case Nil
  then show ?case by simp
next
  case (Cons c cs)
  from split_lines_hd[of cs] obtain l0 ls post0 where
    h: "split_lines cs = l0 # ls" "cs = l0 @ post0" "post0 = [] \<or> hd post0 = CHR 0x0A" by blast
  have later: ?case if "l \<in> set ls"
  proof -
    from that h have "l \<in> set (tl (split_lines cs))" by simp
    from Cons.IH[OF this] obtain pre post where
      "cs = pre @ l @ post" "pre \<noteq> []" "last pre = CHR 0x0A" "post = [] \<or> hd post = CHR 0x0A"
      by blast
    then have "c # cs = (c # pre) @ l @ post \<and> c # pre \<noteq> [] \<and> last (c # pre) = CHR 0x0A \<and>
        (post = [] \<or> hd post = CHR 0x0A)"
      by simp
    then show ?thesis by blast
  qed
  show ?case
  proof (cases "c = CHR 0x0A")
    case True
    with Cons.prems h have "l = l0 \<or> l \<in> set ls" by simp
    then show ?thesis
    proof
      assume "l = l0"
      with h True have "c # cs = [c] @ l @ post0 \<and> [c] \<noteq> [] \<and> last [c] = CHR 0x0A \<and>
          (post0 = [] \<or> hd post0 = CHR 0x0A)" by simp
      then show ?thesis by blast
    next
      assume "l \<in> set ls"
      then show ?thesis by (rule later)
    qed
  next
    case False
    with Cons.prems h have "l \<in> set ls" by simp
    then show ?thesis by (rule later)
  qed
qed

lemma split_lines_decomp:
  assumes "l \<in> set (split_lines tx)"
  shows "\<exists>pre post. tx = pre @ l @ post \<and> (pre = [] \<or> last pre = CHR 0x0A) \<and>
                (post = [] \<or> hd post = CHR 0x0A)"
proof -
  from split_lines_hd[of tx] obtain l0 ls post0 where
    h: "split_lines tx = l0 # ls" "tx = l0 @ post0" "post0 = [] \<or> hd post0 = CHR 0x0A" by blast
  from assms h have "l = l0 \<or> l \<in> set (tl (split_lines tx))" by simp
  then show ?thesis
  proof
    assume "l = l0"
    with h have "tx = [] @ l @ post0 \<and> ([] = [] \<or> last [] = CHR 0x0A) \<and>
        (post0 = [] \<or> hd post0 = CHR 0x0A)" by simp
    then show ?thesis by blast
  next
    assume "l \<in> set (tl (split_lines tx))"
    from split_lines_tl[OF this] show ?thesis by blast
  qed
qed

lemma line_feed_not_word: "\<not> is_word (CHR 0x0A)"
  by (simp add: is_word_def)

lemma matching_line_found:
  assumes "l \<in> set (split_lines tx)" "line_matches l"
  shows "findall ROW_RE tx \<noteq> []"
proof -
  from split_lines_decomp[OF assms(1)] obtain pre post where
    d: "tx = pre @ l @ post" "pre = [] \<or> last pre = CHR 0x0A" "post = [] \<or> hd post = CHR 0x0A"
    by blast
  have gp: "good_post post"
    using d(3) line_feed_not_word by (cases post) (auto simp: good_post_def)
  from assms(2) obtain p' r' c' where "greedy ROW_RE ((None, l), []) = Some ((p', r'), c')"
    by (auto simp: line_matches_def match_at_greedy)
  from extendsD[OF extends_ROW_RE[OF gp] this]
  have "greedy ROW_RE ((None, l @ post), []) = Some ((p', r' @ post), c')" .
  moreover have "prev_after None pre = None \<or> prev_after None pre = Some (CHR 0x0A)"
    using d(2) by (auto simp: prev_after_def)
  ultimately have "greedy ROW_RE ((prev_after None pre, l @ post), []) \<noteq> None"
    using greedy_ROW_RE_line_start[of None "prev_after None pre" "l @ post" "[]"] by simp
  then have "match_at ROW_RE (prev_after None pre, l @ post) \<noteq> None"
    by (simp add: match_at_greedy)
  from scan_nonempty[OF this] show ?thesis by (simp add: findall_def d(1))
qed

section \<open>The rows the extractor returns\<close>






section \<open>When extraction fails\<close>

lemma parse_txt_cases:
  "(findall ROW_RE text = [] \<and> parse_txt text = Inl (ValueError no_rows_msg)) \<or>
   (findall ROW_RE text \<noteq> [] \<and> (\<exists>df. parse_txt text = Inr df))"
  using extract_rows_cases[of "text"] by (auto simp: parse_txt_def)

text \<open>
  C6, as the code has it. \<open>parse_txt\<close> raises the \<^verbatim>\<open>ValueError\<close> of line 39 exactly when
  the scan of the whole text finds no match of the pattern, and raises nothing else. A text
  without a digit has no match. A text one of whose lines matches the pattern has a
  match, whatever its other lines are: they are skipped.
\<close>

theorem parse_txt_fails_iff_no_match:
  "(parse_txt text = Inl (ValueError no_rows_msg) \<longleftrightarrow> findall ROW_RE text = []) \<and>
   (findall ROW_RE text \<noteq> [] \<longrightarrow> (\<exists>df. parse_txt text = Inr df)) \<and>
   ((\<forall>c\<in>set text. \<not> is_digit c) \<longrightarrow> parse_txt text = Inl (ValueError no_rows_msg)) \<and>
   ((\<exists>l\<in>set (split_lines text). line_matches l) \<longrightarrow> (\<exists>df. parse_txt text = Inr df))"
proof (intro conjI impI)
  show "parse_txt text = Inl (ValueError no_rows_msg) \<longleftrightarrow> findall ROW_RE text = []"
    using parse_txt_cases[of "text"] by auto
next
  assume "findall ROW_RE text \<noteq> []"
  then show "\<exists>df. parse_txt text = Inr df"
    using parse_txt_cases[of "text"] by auto
next
  assume "\<forall>c\<in>set text. \<not> is_digit c"
  from no_digit_no_match[OF this] show "parse_txt text = Inl (ValueError no_rows_msg)"
    using parse_txt_cases[of "text"] by auto
next
  assume "\<exists>l\<in>set (split_lines text). line_matches l"
  then obtain l where "l \<in> set (split_lines text)" "line_matches l" by blast
  from matching_line_found[OF this] show "\<exists>df. parse_txt text = Inr df"
    using parse_txt_cases[of "text"] by auto
qed

lemma report_line: "''0000123 001 1 100'' \<in> set (split_lines report_text)"
  by (simp add: report_text_def)

lemma report_line_matches: "line_matches ''0000123 001 1 100''"
  by code_simp

text \<open>An instance of C6: a report with one record between a heading and a footer.\<close>

theorem parse_txt_fails_iff_no_match_witness:
  "''0000123 001 1 100'' \<in> set (split_lines report_text) \<and>
   line_matches ''0000123 001 1 100'' \<and> (\<exists>df. parse_txt report_text = Inr df)"
  using parse_txt_fails_iff_no_match[of report_text] report_line report_line_matches by blast

text \<open>
  C6, as the specification words it, says that extraction fails exactly when no line
  matches the pattern. The white space of the pattern also matches line feeds, so a record
  may run over two lines: here neither line matches, and extraction succeeds.
\<close>

theorem record_across_two_lines:
  "split_lines (''0000123'' @ [CHR 0x0A] @ ''001 1 100'') = [''0000123'', ''001 1 100''] \<and>
   \<not> line_matches ''0000123'' \<and> \<not> line_matches ''001 1 100'' \<and>
   parse_txt (''0000123'' @ [CHR 0x0A] @ ''001 1 100'') =
     Inr [\<lparr>numero_garanzia = ''0000123'', suffisso = ''001'', job = 1, totale_job = 100\<rparr>]"
proof (intro conjI)
  show "split_lines (''0000123'' @ [CHR 0x0A] @ ''001 1 100'') = [''0000123'', ''001 1 100'']"
    by simp
  show "\<not> line_matches ''0000123''" by code_simp
  show "\<not> line_matches ''001 1 100''" by code_simp
  show "parse_txt (''0000123'' @ [CHR 0x0A] @ ''001 1 100'') =
     Inr [\<lparr>numero_garanzia = ''0000123'', suffisso = ''001'', job = 1, totale_job = 100\<rparr>]"
    by code_simp
qed

end
